theory Spec2Isabelle
  imports Main "HOL-Library.Word"
begin

unbundle bit_operations_syntax

section \<open>Go runtime behaviour the sources rely on\<close>

text \<open>
  Go's \<open>int\<close> is modelled as \<open>int\<close>: every integer of the partition buffer is an index
  into, or a length of, a slice held in memory, far from the 64-bit limits. Run-time
  panics are values: an index out of range, slice bounds out of range, a remainder by
  zero, a nil pointer dereference, \<open>make\<close> with a negative length.
\<close>

datatype panic =
  IndexOutOfRange | SliceBoundsOutOfRange | DivideByZero | NilDereference | MakeLenOutOfRange

definition and_then :: "panic + 'a \<Rightarrow> ('a \<Rightarrow> panic + 'b) \<Rightarrow> panic + 'b" where
  "and_then m f = (case m of Inl e \<Rightarrow> Inl e | Inr x \<Rightarrow> f x)"

text \<open>\<open>a % b\<close> truncates towards zero and panics on a zero divisor.\<close>

definition go_rem :: "int \<Rightarrow> int \<Rightarrow> panic + int" where
  "go_rem a b = (if b = 0 then Inl DivideByZero else Inr (sgn a * (\<bar>a\<bar> mod \<bar>b\<bar>)))"

text \<open>\<open>xs[i]\<close> as a read.\<close>

definition go_index :: "'a list \<Rightarrow> int \<Rightarrow> panic + 'a" where
  "go_index xs i =
     (if 0 \<le> i \<and> i < int (length xs) then Inr (xs ! nat i) else Inl IndexOutOfRange)"

text \<open>\<open>xs[lo:hi]\<close>; every slice of the sources is made by \<open>make\<close> with its capacity equal
  to its length, so the bound is the length.\<close>

definition go_slice :: "'a list \<Rightarrow> int \<Rightarrow> int \<Rightarrow> panic + 'a list" where
  "go_slice xs lo hi =
     (if 0 \<le> lo \<and> lo \<le> hi \<and> hi \<le> int (length xs)
      then Inr (take (nat (hi - lo)) (drop (nat lo) xs))
      else Inl SliceBoundsOutOfRange)"

text \<open>\<open>copy(dst[off:], src)\<close>: the slice expression \<open>dst[off:]\<close> is checked, then
  \<open>min (len dst - off) (len src)\<close> elements are written into \<open>dst\<close> from \<open>off\<close> on.\<close>

definition copy_at :: "'a list \<Rightarrow> int \<Rightarrow> 'a list \<Rightarrow> panic + 'a list" where
  "copy_at dst off src =
     (if 0 \<le> off \<and> off \<le> int (length dst)
      then Inr (take (nat off) dst @ take (length dst - nat off) src
                @ drop (nat off + length src) dst)
      else Inl SliceBoundsOutOfRange)"

text \<open>\<open>make([]T, n)\<close> with the zero value of \<open>T\<close>.\<close>

definition make_slice :: "int \<Rightarrow> 'a \<Rightarrow> panic + 'a list" where
  "make_slice n z = (if n < 0 then Inl MakeLenOutOfRange else Inr (replicate (nat n) z))"

section \<open>Data of the partition buffer (producer_partition_buffer.go)\<close>

datatype goerror = GoError string

text \<open>A \<open>[]byte\<close> is \<open>None\<close> when nil.\<close>

type_synonym gobytes = "8 word list option"

text \<open>The \<open>Encoder\<close> interface has one method, \<open>Encode() ([]byte, error)\<close>; an encoder is
  modelled by what that call returns, \<open>Inl\<close> for a non-nil error.\<close>

datatype Encoder = Encoder "goerror + gobytes"

fun Encode :: "Encoder \<Rightarrow> goerror + gobytes" where
  "Encode (Encoder r) = r"

text \<open>A \<open>ProducerMessage\<close>; \<open>Key\<close> and \<open>Value\<close> are interface values, \<open>None\<close> when nil.\<close>

record ProducerMessage =
  Topic :: string
  Key :: "Encoder option"
  Value :: "Encoder option"

record Message =
  Codec :: int
  MsgKey :: gobytes
  MsgValue :: gobytes

definition CompressionNone :: int where
  "CompressionNone = 0"

record ppbMessage =
  ppb_in :: "ProducerMessage option"
  ppb_out :: "Message option"
  retries :: int

definition zero_ppbMessage :: ppbMessage where
  "zero_ppbMessage = \<lparr>ppb_in = None, ppb_out = None, retries = 0\<rparr>"

text \<open>The two options of the configuration the buffer reads:
  \<open>conf.Producer.Return.Successes\<close> and \<open>conf.Producer.Retry.Max\<close>.\<close>

record Config =
  Return_Successes :: bool
  Retry_Max :: int

text \<open>The parent \<open>asyncProducer\<close>: its configuration and its two channels, each modelled
  by the sequence of values sent on it so far. That a send may block until the value is
  received is not modelled.\<close>

record asyncProducer =
  conf :: Config
  successes :: "ProducerMessage list"
  errors :: "(ProducerMessage option \<times> goerror) list"

record producerPartitionBuffer =
  buf :: "ppbMessage list"
  head :: int
  tail :: int
  count :: int
  cur :: int
  parent :: asyncProducer

definition minQueueLen :: int where
  "minQueueLen = 16"

definition maxBuffer :: int where
  "maxBuffer = 1024"

text \<open>The largest value of Go's \<open>int\<close>, which has 64 bits where the producer runs.\<close>

definition MaxInt64 :: int where
  "MaxInt64 = 9223372036854775807"

text \<open>Modelled from the spec: \<open>asyncProducer.returnError\<close> is not among the sources. The
  spec says of an abandoned entry that it is "delivered to the error channel paired with
  \<open>err\<close>".\<close>

definition returnError ::
  "ProducerMessage option \<Rightarrow> goerror \<Rightarrow> producerPartitionBuffer \<Rightarrow> producerPartitionBuffer" where
  "returnError m e s = s\<lparr>parent := (parent s)\<lparr>errors := errors (parent s) @ [(m, e)]\<rparr>\<rparr>"

text \<open>Modelled from the spec: \<open>ProducerMessage.clear\<close> is not among the sources. The spec
  says: "clear large payload fields from the ProducerMessage".\<close>

definition clear :: "ProducerMessage \<Rightarrow> ProducerMessage" where
  "clear m = m\<lparr>Key := None, Value := None\<rparr>"

section \<open>Operations of the partition buffer\<close>

definition newPPB :: "asyncProducer \<Rightarrow> producerPartitionBuffer" where
  "newPPB p =
     \<lparr>buf = replicate (nat minQueueLen) zero_ppbMessage,
      head = 0, tail = 0, count = 0, cur = 0, parent = p\<rparr>"

definition full :: "producerPartitionBuffer \<Rightarrow> bool" where
  "full s = (count s = maxBuffer)"

definition hasNext :: "producerPartitionBuffer \<Rightarrow> bool" where
  "hasNext s = (count s > 0 \<and> cur s < count s)"

text \<open>\<open>resize\<close> copies the occupied span into a new array of twice the count: one run when
  \<open>tail > head\<close>, else the run from \<open>head\<close> to the end of the array and then the run
  before \<open>tail\<close>.\<close>

definition resize :: "producerPartitionBuffer \<Rightarrow> panic + producerPartitionBuffer" where
  "resize s =
     and_then (make_slice (count s * 2) zero_ppbMessage) (\<lambda>newBuf.
     and_then
       (if tail s > head s then
          and_then (go_slice (buf s) (head s) (tail s)) (\<lambda>src. copy_at newBuf 0 src)
        else
          and_then (go_slice (buf s) (head s) (int (length (buf s)))) (\<lambda>src1.
          and_then (copy_at newBuf 0 src1) (\<lambda>newBuf1.
          and_then (go_slice (buf s) 0 (tail s)) (\<lambda>src2.
          copy_at newBuf1 (int (length (buf s)) - head s) src2))))
       (\<lambda>newBuf'. Inr (s\<lparr>head := 0, tail := count s, buf := newBuf'\<rparr>)))"

text \<open>A write to one field of \<open>ppb.buf[i]\<close>.\<close>

definition set_slot ::
  "producerPartitionBuffer \<Rightarrow> int \<Rightarrow> (ppbMessage \<Rightarrow> ppbMessage)
   \<Rightarrow> panic + producerPartitionBuffer" where
  "set_slot s i f =
     (if 0 \<le> i \<and> i < int (length (buf s))
      then Inr (s\<lparr>buf := (buf s)[nat i := f (buf s ! nat i)]\<rparr>)
      else Inl IndexOutOfRange)"

text \<open>The three statements that end each removal loop:
  \<open>buf[head].in = nil; buf[head].out = nil; head = (head + 1) % len(buf)\<close>.\<close>

definition drop_head :: "producerPartitionBuffer \<Rightarrow> panic + producerPartitionBuffer" where
  "drop_head s =
     and_then (set_slot s (head s) (\<lambda>e. e\<lparr>ppb_in := None\<rparr>)) (\<lambda>s1.
     and_then (set_slot s1 (head s1) (\<lambda>e. e\<lparr>ppb_out := None\<rparr>)) (\<lambda>s2.
     and_then (go_rem (head s2 + 1) (int (length (buf s2)))) (\<lambda>h.
     Inr (s2\<lparr>head := h\<rparr>))))"

text \<open>The shrink check that ends the three mark operations.\<close>

definition shrink_check :: "producerPartitionBuffer \<Rightarrow> panic + producerPartitionBuffer" where
  "shrink_check s =
     (if int (length (buf s)) > minQueueLen \<and> count s * 4 = int (length (buf s))
      then resize s else Inr s)"

text \<open>\<open>if in.Key != nil { key, err = in.Key.Encode() }\<close>: a nil encoder leaves the
  bytes nil and raises no error.\<close>

definition encode_field :: "Encoder option \<Rightarrow> goerror + gobytes" where
  "encode_field f = (case f of None \<Rightarrow> Inr None | Some k \<Rightarrow> Encode k)"

text \<open>The message is passed by a pointer that \<open>add\<close> dereferences at once; the model
  takes the message itself.\<close>

definition add :: "ProducerMessage \<Rightarrow> producerPartitionBuffer \<Rightarrow> panic + producerPartitionBuffer" where
  "add inp s =
     (case encode_field (Key inp) of
        Inl err \<Rightarrow> Inr (returnError (Some inp) err s)
      | Inr key \<Rightarrow>
     (case encode_field (Value inp) of
        Inl err \<Rightarrow> Inr (returnError (Some inp) err s)
      | Inr val \<Rightarrow>
     and_then (if count s = int (length (buf s)) then resize s else Inr s) (\<lambda>s1.
     and_then (set_slot s1 (tail s1) (\<lambda>e. e\<lparr>ppb_in := Some inp\<rparr>)) (\<lambda>s2.
     and_then (set_slot s2 (tail s2)
        (\<lambda>e. e\<lparr>ppb_out := Some \<lparr>Codec = CompressionNone, MsgKey = key, MsgValue = val\<rparr>\<rparr>)) (\<lambda>s3.
     and_then (set_slot s3 (tail s3) (\<lambda>e. e\<lparr>retries := 0\<rparr>)) (\<lambda>s4.
     and_then (go_rem (tail s4 + 1) (int (length (buf s4)))) (\<lambda>t.
     Inr (s4\<lparr>tail := t, count := count s4 + 1\<rparr>))))))))"

text \<open>\<open>next\<close> returns the message at the cursor and advances the cursor.\<close>

definition ppb_next ::
  "producerPartitionBuffer \<Rightarrow> panic + (Message option \<times> producerPartitionBuffer)" where
  "ppb_next s =
     and_then (go_rem (head s + cur s) (int (length (buf s)))) (\<lambda>i.
     and_then (go_index (buf s) i) (\<lambda>e.
     Inr (ppb_out e, s\<lparr>cur := cur s + 1\<rparr>)))"

text \<open>The body of the loop of \<open>markSuccess\<close>. \<open>clear\<close> changes the message the slot
  points to, which is then sent; on a nil pointer it panics.\<close>

definition markSuccess_body :: "producerPartitionBuffer \<Rightarrow> panic + producerPartitionBuffer" where
  "markSuccess_body s =
     and_then
       (if Return_Successes (conf (parent s)) then
          and_then (go_index (buf s) (head s)) (\<lambda>e.
          case ppb_in e of
            None \<Rightarrow> Inl NilDereference
          | Some m \<Rightarrow>
              and_then (set_slot s (head s) (\<lambda>e. e\<lparr>ppb_in := Some (clear m)\<rparr>)) (\<lambda>s1.
              Inr (s1\<lparr>parent := (parent s1)\<lparr>successes := successes (parent s1) @ [clear m]\<rparr>\<rparr>)))
        else Inr s)
       drop_head"

fun markSuccess_loop :: "nat \<Rightarrow> producerPartitionBuffer \<Rightarrow> panic + producerPartitionBuffer" where
  "markSuccess_loop 0 s = Inr s"
| "markSuccess_loop (Suc k) s = and_then (markSuccess_body s) (markSuccess_loop k)"

definition markSuccess :: "int \<Rightarrow> producerPartitionBuffer \<Rightarrow> panic + producerPartitionBuffer" where
  "markSuccess n s =
     and_then (markSuccess_loop (nat n) s) (\<lambda>s1.
     shrink_check (s1\<lparr>count := count s1 - n, cur := cur s1 - n\<rparr>))"

text \<open>One removal of the second loop of \<open>markFailure\<close>, which is the whole loop body of
  \<open>markImmediateFailure\<close>.\<close>

definition abandon_head :: "goerror \<Rightarrow> producerPartitionBuffer \<Rightarrow> panic + producerPartitionBuffer" where
  "abandon_head err s =
     and_then (go_index (buf s) (head s)) (\<lambda>e.
     drop_head (returnError (ppb_in e) err s))"

fun abandon_loop :: "nat \<Rightarrow> goerror \<Rightarrow> producerPartitionBuffer \<Rightarrow> panic + producerPartitionBuffer" where
  "abandon_loop 0 err s = Inr s"
| "abandon_loop (Suc k) err s = and_then (abandon_head err s) (abandon_loop k err)"

text \<open>The first loop of \<open>markFailure\<close>: the state, the local index \<open>cur\<close> and the local
  counter \<open>abandoned\<close>. The integers of the model are unbounded, while \<open>retries++\<close> of
  the source wraps from \<open>MaxInt64\<close> to the least 64-bit integer: the two agree on every
  entry whose counter is below \<open>MaxInt64\<close>, and from a new buffer a counter reaches
  \<open>MaxInt64\<close> only after that many failures of one entry.\<close>

definition retry_body ::
  "producerPartitionBuffer \<times> int \<times> int \<Rightarrow> panic + (producerPartitionBuffer \<times> int \<times> int)" where
  "retry_body x =
     (case x of (s, c, abandoned) \<Rightarrow>
       and_then (set_slot s c (\<lambda>e. e\<lparr>retries := retries e + 1\<rparr>)) (\<lambda>s1.
       and_then (go_index (buf s1) c) (\<lambda>e.
       and_then (go_rem (c + 1) (int (length (buf s1)))) (\<lambda>c'.
       Inr (s1, c',
            if retries e = Retry_Max (conf (parent s1)) then abandoned + 1 else abandoned)))))"

fun retry_loop ::
  "nat \<Rightarrow> producerPartitionBuffer \<times> int \<times> int
   \<Rightarrow> panic + (producerPartitionBuffer \<times> int \<times> int)" where
  "retry_loop 0 x = Inr x"
| "retry_loop (Suc k) x = and_then (retry_body x) (retry_loop k)"

definition markFailure ::
  "int \<Rightarrow> goerror \<Rightarrow> producerPartitionBuffer \<Rightarrow> panic + producerPartitionBuffer" where
  "markFailure n err s =
     and_then (retry_loop (nat n) (s, head s, 0)) (\<lambda>(s1, c, abandoned).
     and_then (abandon_loop (nat abandoned) err s1) (\<lambda>s2.
     shrink_check (s2\<lparr>count := count s2 - abandoned, cur := cur s2 - abandoned\<rparr>)))"

definition markImmediateFailure ::
  "int \<Rightarrow> goerror \<Rightarrow> producerPartitionBuffer \<Rightarrow> panic + producerPartitionBuffer" where
  "markImmediateFailure n err s =
     and_then (abandon_loop (nat n) err s) (\<lambda>s1.
     shrink_check (s1\<lparr>count := count s1 - n, cur := cur s1 - n\<rparr>))"

section \<open>Sequences of operations\<close>

text \<open>The five operations a caller applies to a buffer, with their arguments.\<close>

datatype op =
  Add ProducerMessage
| Next
| MarkSuccess int
| MarkFailure int goerror
| MarkImmediateFailure int goerror

fun apply_op :: "producerPartitionBuffer \<Rightarrow> op \<Rightarrow> panic + producerPartitionBuffer" where
  "apply_op s (Add m) = add m s"
| "apply_op s Next = and_then (ppb_next s) (\<lambda>(m, s'). Inr s')"
| "apply_op s (MarkSuccess n) = markSuccess n s"
| "apply_op s (MarkFailure n err) = markFailure n err s"
| "apply_op s (MarkImmediateFailure n err) = markImmediateFailure n err s"

text \<open>A sequence of operations, from left to right; a panic ends it.\<close>

fun exec :: "producerPartitionBuffer \<Rightarrow> op list \<Rightarrow> panic + producerPartitionBuffer" where
  "exec s [] = Inr s"
| "exec s (x # xs) = and_then (apply_op s x) (\<lambda>s'. exec s' xs)"

text \<open>The calls that respect the cursor: \<open>next\<close> only when \<open>hasNext()\<close> holds, and a
  mark of \<open>n\<close> entries only when \<open>n\<close> of them have been drafted (\<open>0 \<le> n \<le> cur\<close>).\<close>

fun cursor_pre :: "producerPartitionBuffer \<Rightarrow> op \<Rightarrow> bool" where
  "cursor_pre s (Add m) = True"
| "cursor_pre s Next = hasNext s"
| "cursor_pre s (MarkSuccess n) = (0 \<le> n \<and> n \<le> cur s)"
| "cursor_pre s (MarkFailure n err) = (0 \<le> n \<and> n \<le> cur s)"
| "cursor_pre s (MarkImmediateFailure n err) = (0 \<le> n \<and> n \<le> cur s)"

text \<open>The calls that respect the ceiling and the occupancy: \<open>add\<close> only when the buffer
  is not \<open>full()\<close>, a mark of \<open>n\<close> entries only when the buffer holds \<open>n\<close>, \<open>next\<close> only on
  an entry of the buffer.\<close>

fun count_pre :: "producerPartitionBuffer \<Rightarrow> op \<Rightarrow> bool" where
  "count_pre s (Add m) = (\<not> full s)"
| "count_pre s Next = (0 \<le> cur s \<and> hasNext s)"
| "count_pre s (MarkSuccess n) = (0 \<le> n \<and> n \<le> count s)"
| "count_pre s (MarkFailure n err) = (0 \<le> n \<and> n \<le> count s)"
| "count_pre s (MarkImmediateFailure n err) = (0 \<le> n \<and> n \<le> count s)"

text \<open>What both have in common once \<open>0 \<le> cur \<le> count\<close>: the marks and \<open>next\<close> stay
  within the entries of the buffer.\<close>

fun weak_pre :: "producerPartitionBuffer \<Rightarrow> op \<Rightarrow> bool" where
  "weak_pre s (Add m) = True"
| "weak_pre s Next = (0 \<le> cur s \<and> cur s < count s)"
| "weak_pre s (MarkSuccess n) = (0 \<le> n \<and> n \<le> count s)"
| "weak_pre s (MarkFailure n err) = (0 \<le> n \<and> n \<le> count s)"
| "weak_pre s (MarkImmediateFailure n err) = (0 \<le> n \<and> n \<le> count s)"

text \<open>\<open>legal P s ops\<close>: each operation of the sequence satisfies \<open>P\<close> in the state it is
  applied to. A panic is not excluded here: that none occurs is part of what is
  proved.\<close>

fun legal ::
  "(producerPartitionBuffer \<Rightarrow> op \<Rightarrow> bool) \<Rightarrow> producerPartitionBuffer \<Rightarrow> op list \<Rightarrow> bool" where
  "legal P s [] = True"
| "legal P s (x # xs) =
     (P s x \<and> (case apply_op s x of Inl e \<Rightarrow> True | Inr s' \<Rightarrow> legal P s' xs))"

text \<open>The entries an operation submits, and the entries it acknowledges as delivered.\<close>

fun adds :: "op \<Rightarrow> int" where
  "adds (Add m) = 1"
| "adds x = 0"

fun acks :: "op \<Rightarrow> int" where
  "acks (MarkSuccess n) = n"
| "acks x = 0"

section \<open>The queue a buffer state stands for\<close>

text \<open>The backing array read from \<open>head\<close> on, around the end: position \<open>i\<close> of \<open>ring\<close> is
  the slot \<open>(head + i) % len(buf)\<close>.\<close>

definition ring :: "producerPartitionBuffer \<Rightarrow> ppbMessage list" where
  "ring s = rotate (nat (head s)) (buf s)"

text \<open>The live entries, oldest first: the \<open>count\<close> slots from \<open>head\<close> on.\<close>

definition live :: "producerPartitionBuffer \<Rightarrow> ppbMessage list" where
  "live s = take (nat (count s)) (ring s)"

text \<open>\<open>head\<close> is an index of the backing array.\<close>

definition geo :: "producerPartitionBuffer \<Rightarrow> bool" where
  "geo s \<longleftrightarrow> 0 \<le> head s \<and> head s < int (length (buf s))"

text \<open>A circular queue: \<open>head\<close> is an index, \<open>count\<close> is at most the length of the array,
  and \<open>tail\<close> is \<open>count\<close> slots after \<open>head\<close>, modulo the length.\<close>

definition well_formed :: "producerPartitionBuffer \<Rightarrow> bool" where
  "well_formed s \<longleftrightarrow> geo s \<and> 0 \<le> count s \<and> count s \<le> int (length (buf s))
     \<and> tail s = (head s + count s) mod int (length (buf s))"

text \<open>The invariant of the data model: \<open>0 \<le> cur \<le> count \<le> capacity\<close>, with \<open>head\<close> and
  \<open>tail\<close> kept modulo the capacity.\<close>

definition cursor_inv :: "producerPartitionBuffer \<Rightarrow> bool" where
  "cursor_inv s \<longleftrightarrow>
     0 \<le> cur s \<and> cur s \<le> count s \<and> count s \<le> int (length (buf s))
     \<and> 0 \<le> head s \<and> head s < int (length (buf s))
     \<and> 0 \<le> tail s \<and> tail s < int (length (buf s))
     \<and> tail s = (head s + count s) mod int (length (buf s))"

text \<open>The occupancy band: \<open>count \<le> len(buf) \<le> 4 * count\<close>, but for an array of the
  minimum capacity.\<close>

definition in_band :: "producerPartitionBuffer \<Rightarrow> bool" where
  "in_band s \<longleftrightarrow>
     count s \<le> int (length (buf s))
     \<and> (int (length (buf s)) \<le> 4 * count s \<or> int (length (buf s)) = minQueueLen)"

text \<open>A slot after \<open>in = nil; out = nil\<close>.\<close>

definition wipe :: "ppbMessage \<Rightarrow> ppbMessage" where
  "wipe e = e\<lparr>ppb_in := None, ppb_out := None\<rparr>"

text \<open>An entry after \<open>retries++\<close>, and the test that this brings it to the limit.\<close>

definition incr :: "ppbMessage \<Rightarrow> ppbMessage" where
  "incr e = e\<lparr>retries := retries e + 1\<rparr>"

definition hit :: "int \<Rightarrow> ppbMessage \<Rightarrow> bool" where
  "hit mx e \<longleftrightarrow> retries e + 1 = mx"

text \<open>What \<open>markSuccess\<close> sends on the success channel for the entries it removes.\<close>

definition acked :: "bool \<Rightarrow> ppbMessage list \<Rightarrow> ProducerMessage list" where
  "acked rs es = (if rs then map (\<lambda>e. clear (the (ppb_in e))) es else [])"

text \<open>The slot \<open>add\<close> writes for a message and its encoded key and value.\<close>

definition entry :: "ProducerMessage \<Rightarrow> gobytes \<Rightarrow> gobytes \<Rightarrow> ppbMessage" where
  "entry m k v =
     \<lparr>ppb_in = Some m, ppb_out = Some \<lparr>Codec = CompressionNone, MsgKey = k, MsgValue = v\<rparr>,
      retries = 0\<rparr>"

text \<open>The queue after the first loop of \<open>markFailure(n, err)\<close>, and the number of entries
  that loop counts as abandoned.\<close>

definition retried :: "int \<Rightarrow> ppbMessage list \<Rightarrow> ppbMessage list" where
  "retried n es = map incr (take (nat n) es) @ drop (nat n) es"

definition abandoned :: "int \<Rightarrow> int \<Rightarrow> ppbMessage list \<Rightarrow> nat" where
  "abandoned mx n es = length (filter (hit mx) (take (nat n) es))"

text \<open>The length of the backing array after the shrink check, from the length and the
  count before it.\<close>

definition shrunk_len :: "int \<Rightarrow> int \<Rightarrow> int" where
  "shrunk_len l c = (if l > minQueueLen \<and> c * 4 = l then 2 * c else l)"

text \<open>No entry has a smaller retry counter than a newer one.\<close>

definition older_first :: "ppbMessage list \<Rightarrow> bool" where
  "older_first es = sorted_wrt (\<lambda>a b. retries b \<le> retries a) es"

text \<open>A pending entry: it has its message, its retry counter is not negative and,
  when the limit is positive, below the limit.\<close>

definition entry_ok :: "int \<Rightarrow> ppbMessage \<Rightarrow> bool" where
  "entry_ok mx e \<longleftrightarrow> ppb_in e \<noteq> None \<and> 0 \<le> retries e \<and> (1 \<le> mx \<longrightarrow> retries e < mx)"

text \<open>The invariant the operations keep.\<close>

definition ppb_inv :: "producerPartitionBuffer \<Rightarrow> bool" where
  "ppb_inv s \<longleftrightarrow> well_formed s
     \<and> (\<forall>e \<in> set (live s). entry_ok (Retry_Max (conf (parent s))) e)
     \<and> older_first (live s)"

section \<open>Concrete states, messages and sequences\<close>

text \<open>Producers: successes not returned and three retries; successes returned; no
  retry.\<close>

definition fresh_parent :: asyncProducer where
  "fresh_parent =
     \<lparr>conf = \<lparr>Return_Successes = False, Retry_Max = 3\<rparr>, successes = [], errors = []\<rparr>"

definition loud_parent :: asyncProducer where
  "loud_parent =
     \<lparr>conf = \<lparr>Return_Successes = True, Retry_Max = 3\<rparr>, successes = [], errors = []\<rparr>"

definition zero_retry_parent :: asyncProducer where
  "zero_retry_parent =
     \<lparr>conf = \<lparr>Return_Successes = False, Retry_Max = 0\<rparr>, successes = [], errors = []\<rparr>"

text \<open>A message whose value encodes to two bytes, and one whose key encoder fails.\<close>

definition ok_msg :: ProducerMessage where
  "ok_msg = \<lparr>Topic = ''t'', Key = None, Value = Some (Encoder (Inr (Some [104, 105])))\<rparr>"

definition bad_key_msg :: ProducerMessage where
  "bad_key_msg = \<lparr>Topic = ''t'', Key = Some (Encoder (Inl (GoError ''key''))), Value = None\<rparr>"

text \<open>A queue of four slots whose two live entries wrap around the end of the array, and
  the same queue under a producer without retries.\<close>

definition wrapped_ppb :: producerPartitionBuffer where
  "wrapped_ppb =
     \<lparr>buf = [\<lparr>ppb_in = None, ppb_out = None, retries = 2\<rparr>,
             \<lparr>ppb_in = None, ppb_out = None, retries = 0\<rparr>,
             \<lparr>ppb_in = None, ppb_out = None, retries = 7\<rparr>,
             \<lparr>ppb_in = None, ppb_out = None, retries = 3\<rparr>],
      head = 3, tail = 1, count = 2, cur = 0, parent = fresh_parent\<rparr>"

definition zero_retry_ppb :: producerPartitionBuffer where
  "zero_retry_ppb = wrapped_ppb\<lparr>parent := zero_retry_parent\<rparr>"

text \<open>A new buffer after one \<open>add\<close> and one \<open>next\<close>.\<close>

definition single_ppb :: producerPartitionBuffer where
  "single_ppb =
     (newPPB fresh_parent)
       \<lparr>buf := (buf (newPPB fresh_parent))[0 := entry ok_msg None (Some [104, 105])],
        tail := 1, count := 1, cur := 1\<rparr>"

text \<open>Seventeen adds grow the array to 32 slots; ten entries are drafted and acknowledged
  in one batch.\<close>

definition batch_ops :: "op list" where
  "batch_ops = replicate 17 (Add ok_msg) @ replicate 10 Next @ [MarkSuccess 10]"

text \<open>The same, followed by one more add and one more draft: 8 entries in 32 slots.\<close>

definition shrinkable_ops :: "op list" where
  "shrinkable_ops =
     replicate 17 (Add ok_msg) @ replicate 10 Next @ [MarkSuccess 10, Add ok_msg, Next]"

text \<open>Shorter sequences.\<close>

definition cycle_ops :: "op list" where
  "cycle_ops = [Add ok_msg, Next, MarkSuccess 1]"

definition mixed_ops :: "op list" where
  "mixed_ops =
     [Add ok_msg, Add bad_key_msg, Add ok_msg, MarkSuccess 1, MarkFailure 1 (GoError ''e'')]"

definition retry_ops :: "op list" where
  "retry_ops =
     [Add ok_msg, Add ok_msg, Next, Next,
      MarkFailure 1 (GoError ''e''), MarkFailure 1 (GoError ''e'')]"

text \<open>What is read off a result: the length of the array and the four integers of the
  state, the retry counters of the live entries, or whether a property holds.\<close>

definition shape :: "panic + producerPartitionBuffer \<Rightarrow> panic + (nat \<times> int \<times> int \<times> int \<times> int)" where
  "shape r = (case r of Inl e \<Rightarrow> Inl e
                | Inr s \<Rightarrow> Inr (length (buf s), head s, tail s, count s, cur s))"

definition retry_counters :: "panic + producerPartitionBuffer \<Rightarrow> panic + int list" where
  "retry_counters r = (case r of Inl e \<Rightarrow> Inl e | Inr s \<Rightarrow> Inr (map retries (live s)))"

definition holds :: "(producerPartitionBuffer \<Rightarrow> bool) \<Rightarrow> panic + producerPartitionBuffer \<Rightarrow> bool" where
  "holds P r = (case r of Inl e \<Rightarrow> False | Inr s \<Rightarrow> P s)"

section \<open>The produce request (the source file that declares \<open>ProduceRequest\<close>)\<close>

text \<open>\<open>RequiredAcks\<close> is an \<open>int16\<close> with three named values.\<close>

definition NoResponse :: "16 word" where
  "NoResponse = 0"

definition WaitForLocal :: "16 word" where
  "WaitForLocal = 1"

definition WaitForAll :: "16 word" where
  "WaitForAll = - 1"

text \<open>\<open>msgSets\<close> is a map of maps; the outer one is nil (\<open>None\<close>) until it is allocated.
  The \<open>MessageSet\<close> type is not among the sources; it is a type parameter, and the map
  values are the sets themselves (pointers that are not nil).\<close>

record 'ms ProduceRequest =
  RequiredAcks :: "16 word"
  Timeout :: "32 word"
  Version :: "16 word"
  msgSets :: "(string \<rightharpoonup> (32 word \<rightharpoonup> 'ms)) option"

text \<open>The zero value \<open>ProduceRequest{}\<close>, which a decode starts from.\<close>

definition new_request :: "'ms ProduceRequest" where
  "new_request = \<lparr>RequiredAcks = 0, Timeout = 0, Version = 0, msgSets = None\<rparr>"

text \<open>The entries a request carries: a nil map is read as an empty one.\<close>

definition topics_of :: "'ms ProduceRequest \<Rightarrow> (string \<rightharpoonup> (32 word \<rightharpoonup> 'ms))" where
  "topics_of r = (case msgSets r of None \<Rightarrow> Map.empty | Some m \<Rightarrow> m)"

text \<open>The \<open>packetDecoder\<close> interface, as far as \<open>decode\<close> calls it. Its declaration is not
  among the sources, so it is a parameter: a decoder state \<open>'pd\<close> and one function for each
  method, which returns the error or the value read and the state after the read.
  \<open>getSubset\<close> returns the decoder of the sub-view and the state after it.\<close>

record 'pd packetDecoder =
  getInt16 :: "'pd \<Rightarrow> goerror + (16 word \<times> 'pd)"
  getInt32 :: "'pd \<Rightarrow> goerror + (32 word \<times> 'pd)"
  getArrayLength :: "'pd \<Rightarrow> goerror + (int \<times> 'pd)"
  getString :: "'pd \<Rightarrow> goerror + (string \<times> 'pd)"
  getSubset :: "int \<Rightarrow> 'pd \<Rightarrow> goerror + ('pd \<times> 'pd)"

text \<open>The inner loop of \<open>decode\<close>, \<open>for j := 0; j < partitionCount; j++\<close>, on the map
  \<open>r.msgSets[topic]\<close>; \<open>md\<close> is \<open>MessageSet.decode\<close>, a parameter as well. An error ends
  the whole decode; what had been stored in the receiver by then is not kept in the model.\<close>

fun decode_partitions ::
  "'pd packetDecoder \<Rightarrow> ('pd \<Rightarrow> goerror + 'ms) \<Rightarrow> nat \<Rightarrow> (32 word \<rightharpoonup> 'ms) \<Rightarrow> 'pd
   \<Rightarrow> goerror + ((32 word \<rightharpoonup> 'ms) \<times> 'pd)" where
  "decode_partitions D md 0 m pd = Inr (m, pd)"
| "decode_partitions D md (Suc j) m pd =
     (case getInt32 D pd of Inl err \<Rightarrow> Inl err | Inr (partition_id, pd1) \<Rightarrow>
      case getInt32 D pd1 of Inl err \<Rightarrow> Inl err | Inr (messageSetSize, pd2) \<Rightarrow>
      case getSubset D (sint messageSetSize) pd2 of Inl err \<Rightarrow> Inl err
      | Inr (msgSetDecoder, pd3) \<Rightarrow>
      case md msgSetDecoder of Inl err \<Rightarrow> Inl err | Inr msgSet \<Rightarrow>
      decode_partitions D md j (m(partition_id \<mapsto> msgSet)) pd3)"

text \<open>The outer loop, \<open>for i := 0; i < topicCount; i++\<close>, on \<open>r.msgSets\<close>; each topic
  starts from a new map of partitions.\<close>

fun decode_topics ::
  "'pd packetDecoder \<Rightarrow> ('pd \<Rightarrow> goerror + 'ms) \<Rightarrow> nat \<Rightarrow> (string \<rightharpoonup> (32 word \<rightharpoonup> 'ms)) \<Rightarrow> 'pd
   \<Rightarrow> goerror + ((string \<rightharpoonup> (32 word \<rightharpoonup> 'ms)) \<times> 'pd)" where
  "decode_topics D md 0 m pd = Inr (m, pd)"
| "decode_topics D md (Suc i) m pd =
     (case getString D pd of Inl err \<Rightarrow> Inl err | Inr (topic, pd1) \<Rightarrow>
      case getArrayLength D pd1 of Inl err \<Rightarrow> Inl err | Inr (partitionCount, pd2) \<Rightarrow>
      case decode_partitions D md (nat partitionCount) Map.empty pd2 of Inl err \<Rightarrow> Inl err
      | Inr (partitions, pd3) \<Rightarrow>
      decode_topics D md i (m(topic \<mapsto> partitions)) pd3)"

text \<open>\<open>decode\<close> returns the error, or the receiver as it is when \<open>decode\<close> returns nil.
  With a topic count of zero it returns before \<open>r.msgSets\<close> is allocated. The \<open>version\<close>
  argument is not read.\<close>

definition decode ::
  "'pd packetDecoder \<Rightarrow> ('pd \<Rightarrow> goerror + 'ms) \<Rightarrow> 'ms ProduceRequest \<Rightarrow> 'pd \<Rightarrow> 16 word
   \<Rightarrow> goerror + 'ms ProduceRequest" where
  "decode D md r pd version =
     (case getInt16 D pd of Inl err \<Rightarrow> Inl err | Inr (requiredAcks, pd1) \<Rightarrow>
      case getInt32 D pd1 of Inl err \<Rightarrow> Inl err | Inr (timeout, pd2) \<Rightarrow>
      case getArrayLength D pd2 of Inl err \<Rightarrow> Inl err | Inr (topicCount, pd3) \<Rightarrow>
      if topicCount = 0 then Inr (r\<lparr>RequiredAcks := requiredAcks, Timeout := timeout\<rparr>)
      else
        case decode_topics D md (nat topicCount) Map.empty pd3 of Inl err \<Rightarrow> Inl err
        | Inr (m, pd4) \<Rightarrow>
          Inr (r\<lparr>RequiredAcks := requiredAcks, Timeout := timeout, msgSets := Some m\<rparr>))"

text \<open>The \<open>packetEncoder\<close> interface, as far as \<open>encode\<close> calls it, a parameter like the
  decoder. \<open>push\<close> is only called with a new \<open>lengthField\<close>. \<open>offset\<close> is read for the
  batch-size observation only and is left out with it.\<close>

record 'pe packetEncoder =
  putInt16 :: "16 word \<Rightarrow> 'pe \<Rightarrow> 'pe"
  putInt32 :: "32 word \<Rightarrow> 'pe \<Rightarrow> 'pe"
  putArrayLength :: "int \<Rightarrow> 'pe \<Rightarrow> goerror + 'pe"
  putString :: "string \<Rightarrow> 'pe \<Rightarrow> goerror + 'pe"
  push_lengthField :: "'pe \<Rightarrow> 'pe"
  pop :: "'pe \<Rightarrow> goerror + 'pe"

text \<open>The loop over the partitions of one topic; \<open>me\<close> is \<open>MessageSet.encode\<close>. The list
  is the order in which \<open>range\<close> visits the map. The observations sent to the histograms
  and the counter touch neither the encoder nor the request and are left out.\<close>

fun encode_partitions ::
  "'pe packetEncoder \<Rightarrow> ('ms \<Rightarrow> 'pe \<Rightarrow> goerror + 'pe) \<Rightarrow> (32 word \<times> 'ms) list \<Rightarrow> 'pe
   \<Rightarrow> goerror + 'pe" where
  "encode_partitions E me [] pe = Inr pe"
| "encode_partitions E me ((partition_id, msgSet) # rest) pe =
     (case me msgSet (push_lengthField E (putInt32 E partition_id pe)) of Inl err \<Rightarrow> Inl err
      | Inr pe1 \<Rightarrow>
      case pop E pe1 of Inl err \<Rightarrow> Inl err | Inr pe2 \<Rightarrow>
      encode_partitions E me rest pe2)"

fun encode_topics ::
  "'pe packetEncoder \<Rightarrow> ('ms \<Rightarrow> 'pe \<Rightarrow> goerror + 'pe) \<Rightarrow> (string \<times> (32 word \<times> 'ms) list) list
   \<Rightarrow> 'pe \<Rightarrow> goerror + 'pe" where
  "encode_topics E me [] pe = Inr pe"
| "encode_topics E me ((topic, partitions) # rest) pe =
     (case putString E topic pe of Inl err \<Rightarrow> Inl err | Inr pe1 \<Rightarrow>
      case putArrayLength E (int (length partitions)) pe1 of Inl err \<Rightarrow> Inl err
      | Inr pe2 \<Rightarrow>
      case encode_partitions E me partitions pe2 of Inl err \<Rightarrow> Inl err | Inr pe3 \<Rightarrow>
      encode_topics E me rest pe3)"

text \<open>\<open>range\<close> over a Go map visits every entry once, in an order that is not specified:
  a list of the entries with no key twice.\<close>

definition range_order :: "('k \<rightharpoonup> 'v) \<Rightarrow> ('k \<times> 'v) list \<Rightarrow> bool" where
  "range_order m xs \<longleftrightarrow> distinct (map fst xs) \<and> map_of xs = m"

definition topic_maps ::
  "(string \<times> (32 word \<times> 'ms) list) list \<Rightarrow> (string \<times> (32 word \<rightharpoonup> 'ms)) list" where
  "topic_maps topics = map (\<lambda>(t, ps). (t, map_of ps)) topics"

text \<open>The orders in which the two nested \<open>range\<close> loops of one \<open>encode\<close> call may visit the
  topics of a request and the partitions of each topic.\<close>

definition iteration_of ::
  "'ms ProduceRequest \<Rightarrow> (string \<times> (32 word \<times> 'ms) list) list \<Rightarrow> bool" where
  "iteration_of r topics \<longleftrightarrow>
     range_order (topics_of r) (topic_maps topics)
     \<and> (\<forall>(t, ps) \<in> set topics. distinct (map fst ps))"

text \<open>\<open>encode\<close>, with the order \<open>topics\<close> its loops take; \<open>len(r.msgSets)\<close> is the length
  of that list.\<close>

definition encode ::
  "'pe packetEncoder \<Rightarrow> ('ms \<Rightarrow> 'pe \<Rightarrow> goerror + 'pe) \<Rightarrow> 'ms ProduceRequest
   \<Rightarrow> (string \<times> (32 word \<times> 'ms) list) list \<Rightarrow> 'pe \<Rightarrow> goerror + 'pe" where
  "encode E me r topics pe =
     (case putArrayLength E (int (length topics))
             (putInt32 E (Timeout r) (putInt16 E (RequiredAcks r) pe)) of
        Inl err \<Rightarrow> Inl err
      | Inr pe1 \<Rightarrow> encode_topics E me topics pe1)"

section \<open>A wire codec after the spec\<close>

text \<open>
  The encoder and decoder that implement the two interfaces are not among the sources.
  The definitions of this section are modelled from the spec, sections 4.1 and 6:
  big-endian integers, strings and arrays behind a length prefix (two bytes for a string,
  four for an array, as in the protocol the wire format belongs to), a length field of four
  bytes reserved by push and patched by pop, a sub-view of exactly the announced length on
  decode, and an error on a short read, on a negative length and on a length beyond the
  bytes that remain.
\<close>

type_synonym bytes = "8 word list"

text \<open>Modelled from the spec: the 16-bit integer of the wire format, "big-endian
  throughout"; the real encoder is missing.\<close>

definition be16 :: "16 word \<Rightarrow> bytes" where
  "be16 w = [of_nat (unat w div 256), of_nat (unat w mod 256)]"

text \<open>Modelled from the spec: the 32-bit integer of the wire format, big-endian; the real
  encoder is missing.\<close>

definition be32 :: "32 word \<Rightarrow> bytes" where
  "be32 w = [of_nat (unat w div 16777216), of_nat (unat w div 65536 mod 256),
             of_nat (unat w div 256 mod 256), of_nat (unat w mod 256)]"

text \<open>Modelled from the spec: the 16-bit integer at the head of the bytes, big-endian; the
  real decoder is missing.\<close>

fun rd16 :: "bytes \<Rightarrow> 16 word" where
  "rd16 (a # b # bs) = of_nat (unat a * 256 + unat b)"
| "rd16 bs = 0"

text \<open>Modelled from the spec: the 32-bit integer at the head of the bytes, big-endian; the
  real decoder is missing.\<close>

fun rd32 :: "bytes \<Rightarrow> 32 word" where
  "rd32 (a # b # c # d # bs) = of_nat (((unat a * 256 + unat b) * 256 + unat c) * 256 + unat d)"
| "rd32 bs = 0"

text \<open>Modelled from the spec: the 64-bit integer of the wire format, big-endian; the real
  encoder and decoder are missing.\<close>

definition be64 :: "64 word \<Rightarrow> bytes" where
  "be64 w = be32 (of_nat (unat w div 4294967296)) @ be32 (of_nat (unat w mod 4294967296))"

definition rd64 :: "bytes \<Rightarrow> 64 word" where
  "rd64 bs = of_nat (unat (rd32 bs) * 4294967296 + unat (rd32 (drop 4 bs)))"

text \<open>A Go string is its bytes.\<close>

definition string_bytes :: "string \<Rightarrow> bytes" where
  "string_bytes s = map (\<lambda>c. of_nat (of_char c)) s"

definition bytes_string :: "bytes \<Rightarrow> string" where
  "bytes_string bs = map (\<lambda>b. char_of (unat b)) bs"

text \<open>Modelled from the spec: the two kinds of decode failure the spec names, a short
  read and a length that is negative or exceeds the bytes that remain; the error values of
  the real decoder are missing.\<close>

definition ErrInsufficientData :: goerror where
  "ErrInsufficientData = GoError ''insufficient data''"

definition ErrInvalidLength :: goerror where
  "ErrInvalidLength = GoError ''invalid length''"

text \<open>Modelled from the spec: \<open>getInt16\<close> of the missing decoder, whose state is the bytes
  not yet read; "any short read ... fails".\<close>

definition wire_getInt16 :: "bytes \<Rightarrow> goerror + (16 word \<times> bytes)" where
  "wire_getInt16 bs = (if length bs < 2 then Inl ErrInsufficientData else Inr (rd16 bs, drop 2 bs))"

text \<open>Modelled from the spec: \<open>getInt32\<close> of the missing decoder.\<close>

definition wire_getInt32 :: "bytes \<Rightarrow> goerror + (32 word \<times> bytes)" where
  "wire_getInt32 bs = (if length bs < 4 then Inl ErrInsufficientData else Inr (rd32 bs, drop 4 bs))"

text \<open>Modelled from the spec: \<open>getArrayLength\<close> of the missing decoder; a "negative
  array/string length, or string/array length exceeding remaining buffer size fails".\<close>

definition wire_getArrayLength :: "bytes \<Rightarrow> goerror + (int \<times> bytes)" where
  "wire_getArrayLength bs =
     (case wire_getInt32 bs of Inl err \<Rightarrow> Inl err
      | Inr (w, rest) \<Rightarrow>
          if sint w < 0 then Inl ErrInvalidLength
          else if sint w > int (length rest) then Inl ErrInsufficientData
          else Inr (sint w, rest))"

text \<open>Modelled from the spec: \<open>getString\<close> of the missing decoder, a "length-prefixed"
  string.\<close>

definition wire_getString :: "bytes \<Rightarrow> goerror + (string \<times> bytes)" where
  "wire_getString bs =
     (case wire_getInt16 bs of Inl err \<Rightarrow> Inl err
      | Inr (w, rest) \<Rightarrow>
          if sint w < 0 then Inl ErrInvalidLength
          else if sint w > int (length rest) then Inl ErrInsufficientData
          else Inr (bytes_string (take (nat (sint w)) rest), drop (nat (sint w)) rest))"

text \<open>Modelled from the spec: \<open>getSubset\<close> of the missing decoder, "a bounded sub-view
  restricted to exactly that many remaining bytes".\<close>

definition wire_getSubset :: "int \<Rightarrow> bytes \<Rightarrow> goerror + (bytes \<times> bytes)" where
  "wire_getSubset n bs =
     (if n < 0 then Inl ErrInvalidLength
      else if n > int (length bs) then Inl ErrInsufficientData
      else Inr (take (nat n) bs, drop (nat n) bs))"

text \<open>Modelled from the spec: \<open>getInt8\<close> and \<open>getInt64\<close> of the missing decoder.\<close>

definition wire_getInt8 :: "bytes \<Rightarrow> goerror + (8 word \<times> bytes)" where
  "wire_getInt8 bs = (if length bs < 1 then Inl ErrInsufficientData else Inr (hd bs, drop 1 bs))"

definition wire_getInt64 :: "bytes \<Rightarrow> goerror + (64 word \<times> bytes)" where
  "wire_getInt64 bs = (if length bs < 8 then Inl ErrInsufficientData else Inr (rd64 bs, drop 8 bs))"

text \<open>Modelled from the spec: \<open>getBytes\<close> of the missing decoder, a "length-prefixed byte
  array"; the length \<open>-1\<close> stands for a nil array, any other negative length and a length
  beyond the bytes that remain fail.\<close>

definition wire_getBytes :: "bytes \<Rightarrow> goerror + (gobytes \<times> bytes)" where
  "wire_getBytes bs =
     (case wire_getInt32 bs of Inl err \<Rightarrow> Inl err
      | Inr (w, rest) \<Rightarrow>
          if sint w < - 1 then Inl ErrInvalidLength
          else if sint w = - 1 then Inr (None, rest)
          else if sint w > int (length rest) then Inl ErrInsufficientData
          else Inr (Some (take (nat (sint w)) rest), drop (nat (sint w)) rest))"

text \<open>Modelled from the spec: the missing decoder as an implementation of the
  interface.\<close>

definition wire_decoder :: "bytes packetDecoder" where
  "wire_decoder =
     \<lparr>getInt16 = wire_getInt16, getInt32 = wire_getInt32,
      getArrayLength = wire_getArrayLength, getString = wire_getString,
      getSubset = wire_getSubset\<rparr>"

text \<open>Modelled from the spec: the state of the missing encoder, "a growable byte sink"
  and the fields pushed and not yet popped, each with the offset it was reserved at. The
  request pushes length fields; a message pushes the field of its checksum.\<close>

datatype pushEncoder = lengthField | crc32Field

record wire_sink =
  written :: bytes
  reserved :: "(pushEncoder \<times> nat) list"

definition new_sink :: wire_sink where
  "new_sink = \<lparr>written = [], reserved = []\<rparr>"

text \<open>Modelled from the spec: \<open>putInt8\<close>, \<open>putInt16\<close>, \<open>putInt32\<close> and \<open>putInt64\<close> of the
  missing encoder.\<close>

definition wire_putInt8 :: "8 word \<Rightarrow> wire_sink \<Rightarrow> wire_sink" where
  "wire_putInt8 w s = s\<lparr>written := written s @ [w]\<rparr>"

definition wire_putInt16 :: "16 word \<Rightarrow> wire_sink \<Rightarrow> wire_sink" where
  "wire_putInt16 w s = s\<lparr>written := written s @ be16 w\<rparr>"

definition wire_putInt32 :: "32 word \<Rightarrow> wire_sink \<Rightarrow> wire_sink" where
  "wire_putInt32 w s = s\<lparr>written := written s @ be32 w\<rparr>"

definition wire_putInt64 :: "64 word \<Rightarrow> wire_sink \<Rightarrow> wire_sink" where
  "wire_putInt64 w s = s\<lparr>written := written s @ be64 w\<rparr>"

text \<open>Modelled from the spec: \<open>putArrayLength\<close> of the missing encoder; the error, which
  the spec does not describe, is a length that the prefix cannot hold.\<close>

definition wire_putArrayLength :: "int \<Rightarrow> wire_sink \<Rightarrow> goerror + wire_sink" where
  "wire_putArrayLength n s =
     (if n < 0 \<or> 2147483647 < n then Inl ErrInvalidLength
      else Inr (wire_putInt32 (of_int n) s))"

text \<open>Modelled from the spec: \<open>putString\<close> of the missing encoder; the error is a string
  longer than its prefix can hold.\<close>

definition wire_putString :: "string \<Rightarrow> wire_sink \<Rightarrow> goerror + wire_sink" where
  "wire_putString str s =
     (if 32767 < length str then Inl ErrInvalidLength
      else Inr (s\<lparr>written := written s @ be16 (of_nat (length str)) @ string_bytes str\<rparr>))"

text \<open>Modelled from the spec: \<open>putBytes\<close> of the missing encoder, a "length-prefixed byte
  array"; a nil array is written as the length \<open>-1\<close> alone, as in the protocol the wire
  format belongs to, and the error is an array longer than its prefix can hold.\<close>

definition wire_putBytes :: "gobytes \<Rightarrow> wire_sink \<Rightarrow> goerror + wire_sink" where
  "wire_putBytes b s =
     (case b of
        None \<Rightarrow> Inr (wire_putInt32 (- 1) s)
      | Some bs \<Rightarrow>
          if 2147483647 < length bs then Inl ErrInvalidLength
          else Inr (s\<lparr>written := written s @ be32 (of_nat (length bs)) @ bs\<rparr>))"

text \<open>Modelled from the spec: the checksum of a message, which the spec does not name; it
  is the CRC-32 of the protocol the wire format belongs to (the polynomial of IEEE 802.3,
  reflected, all ones at the start and inverted at the end), computed bit by bit.\<close>

definition crc32_shift :: "nat \<Rightarrow> nat" where
  "crc32_shift c = (if odd c then (c div 2) XOR 3988292384 else c div 2)"

definition crc32_update :: "8 word \<Rightarrow> nat \<Rightarrow> nat" where
  "crc32_update b c =
     crc32_shift (crc32_shift (crc32_shift (crc32_shift (crc32_shift (crc32_shift (crc32_shift
       (crc32_shift (c XOR unat b))))))))"

definition crc32 :: "bytes \<Rightarrow> 32 word" where
  "crc32 bs = of_nat (fold crc32_update bs 4294967295 XOR 4294967295)"

text \<open>Modelled from the spec: \<open>push\<close> on the missing encoder, "reserve a fixed-width
  length field at the current write offset"; the field of a checksum has four bytes
  too.\<close>

definition wire_push :: "pushEncoder \<Rightarrow> wire_sink \<Rightarrow> wire_sink" where
  "wire_push f s =
     s\<lparr>reserved := (f, length (written s)) # reserved s, written := written s @ [0, 0, 0, 0]\<rparr>"

text \<open>Modelled from the spec: what \<open>pop\<close> patches into a field, given the bytes written
  since the push: their number, or their checksum.\<close>

fun field_value :: "pushEncoder \<Rightarrow> bytes \<Rightarrow> 32 word" where
  "field_value lengthField body = of_nat (length body)"
| "field_value crc32Field body = crc32 body"

text \<open>Modelled from the spec: \<open>pop\<close> of the missing encoder, "compute the number of bytes
  written since the push and patch them into the reserved field"; a pop with nothing
  pushed is the error.\<close>

definition wire_pop :: "wire_sink \<Rightarrow> goerror + wire_sink" where
  "wire_pop s =
     (case reserved s of
        [] \<Rightarrow> Inl ErrInvalidLength
      | (f, off) # rest \<Rightarrow>
          Inr (s\<lparr>written := take off (written s)
                            @ be32 (field_value f (drop (off + 4) (written s)))
                            @ drop (off + 4) (written s),
                 reserved := rest\<rparr>))"

text \<open>Modelled from the spec: the missing encoder as an implementation of the
  interface.\<close>

definition wire_encoder :: "wire_sink packetEncoder" where
  "wire_encoder =
     \<lparr>putInt16 = wire_putInt16, putInt32 = wire_putInt32,
      putArrayLength = wire_putArrayLength, putString = wire_putString,
      push_lengthField = wire_push lengthField, pop = wire_pop\<rparr>"

section \<open>Message sets on the wire\<close>

text \<open>
  \<open>MessageSet\<close>, \<open>MessageBlock\<close>, the methods \<open>encode\<close> and \<open>decode\<close> of both and of
  \<open>Message\<close> are not among the sources; the produce request reads \<open>msgSet.Messages\<close> and
  \<open>messageBlock.Msg\<close>. The spec describes a message set as "an ordered, length-framed
  sequence of wire-encoded records" and a message as "compression codec tag, encoded key,
  encoded value"; the layout of a record is the one of the protocol the wire format belongs
  to, in its first version: a 64-bit offset, the length of the message in a field of four
  bytes, then the message, which is the checksum of what follows it, a format byte, the
  attributes byte that holds the codec tag, the key and the value, each a length-prefixed
  byte array.
\<close>

text \<open>Modelled from the spec: a block of the missing type \<open>MessageSet\<close>, a message (a
  pointer that is not nil) and its offset.\<close>

record MessageBlock =
  Offset :: "64 word"
  Msg :: Message

text \<open>Modelled from the spec: the missing type \<open>MessageSet\<close>, "an ordered ... sequence of
  wire-encoded records".\<close>

record MessageSet =
  Messages :: "MessageBlock list"

text \<open>Modelled from the spec: the compression libraries, which are not part of the
  repository. \<open>compress_value\<close> is what \<open>Message.encode\<close> writes for the value of a message
  whose codec is not \<open>CompressionNone\<close>; \<open>expand_value\<close> is what \<open>Message.decode\<close> makes of
  the value read for such a codec (the decompressed bytes, or an error of the library or of
  the batch of records they hold).\<close>

record Compression =
  compress_value :: "int \<Rightarrow> bytes \<Rightarrow> goerror + bytes"
  expand_value :: "int \<Rightarrow> gobytes \<Rightarrow> goerror + gobytes"

text \<open>Modelled from the spec: the value that the missing \<open>Message.encode\<close> writes: the
  value itself for an uncompressed message, what the compression library makes of it
  otherwise; a nil value stays nil.\<close>

definition encode_payload :: "Compression \<Rightarrow> Message \<Rightarrow> goerror + gobytes" where
  "encode_payload P m =
     (case MsgValue m of
        None \<Rightarrow> Inr None
      | Some v \<Rightarrow>
          if Codec m = CompressionNone then Inr (Some v)
          else (case compress_value P (Codec m) v of Inl err \<Rightarrow> Inl err | Inr z \<Rightarrow> Inr (Some z)))"

text \<open>Modelled from the spec: the codec tag in the attributes byte, its two low bits.\<close>

definition codec_attributes :: "int \<Rightarrow> 8 word" where
  "codec_attributes c = of_int c AND 3"

definition attributes_codec :: "8 word \<Rightarrow> int" where
  "attributes_codec a = uint (a AND 3)"

text \<open>Modelled from the spec: the missing \<open>Message.encode\<close>. The checksum field is pushed,
  the format byte (zero: the record \<open>Message\<close> has the fields that \<open>add\<close> sets), the
  attributes, the key and the value are written, and the field is popped.\<close>

definition Message_encode :: "Compression \<Rightarrow> Message \<Rightarrow> wire_sink \<Rightarrow> goerror + wire_sink" where
  "Message_encode P m s =
     (case wire_putBytes (MsgKey m)
             (wire_putInt8 (codec_attributes (Codec m))
               (wire_putInt8 0 (wire_push crc32Field s))) of
        Inl err \<Rightarrow> Inl err
      | Inr s1 \<Rightarrow>
      case encode_payload P m of Inl err \<Rightarrow> Inl err | Inr payload \<Rightarrow>
      case wire_putBytes payload s1 of Inl err \<Rightarrow> Inl err | Inr s2 \<Rightarrow>
      wire_pop s2)"

text \<open>Modelled from the spec: the missing \<open>MessageBlock.encode\<close>: the offset, then the
  message between the push and the pop of its length field.\<close>

definition MessageBlock_encode ::
  "Compression \<Rightarrow> MessageBlock \<Rightarrow> wire_sink \<Rightarrow> goerror + wire_sink" where
  "MessageBlock_encode P msb s =
     (case Message_encode P (Msg msb) (wire_push lengthField (wire_putInt64 (Offset msb) s)) of
        Inl err \<Rightarrow> Inl err
      | Inr s1 \<Rightarrow> wire_pop s1)"

text \<open>Modelled from the spec: the missing \<open>MessageSet.encode\<close>, the blocks in their
  order.\<close>

fun encode_blocks :: "Compression \<Rightarrow> MessageBlock list \<Rightarrow> wire_sink \<Rightarrow> goerror + wire_sink" where
  "encode_blocks P [] s = Inr s"
| "encode_blocks P (msb # rest) s =
     (case MessageBlock_encode P msb s of Inl err \<Rightarrow> Inl err
      | Inr s1 \<Rightarrow> encode_blocks P rest s1)"

definition MessageSet_encode :: "Compression \<Rightarrow> MessageSet \<Rightarrow> wire_sink \<Rightarrow> goerror + wire_sink" where
  "MessageSet_encode P ms s = encode_blocks P (Messages ms) s"

text \<open>Modelled from the spec: the errors of a length field and of a checksum that do not
  match what was read, which the spec counts among the decode failures.\<close>

definition ErrLengthField :: goerror where
  "ErrLengthField = GoError ''length field invalid''"

definition ErrChecksum :: goerror where
  "ErrChecksum = GoError ''checksum mismatch''"

text \<open>Modelled from the spec: what \<open>Message.decode\<close> makes of the value it has read.\<close>

definition decode_payload :: "Compression \<Rightarrow> int \<Rightarrow> gobytes \<Rightarrow> goerror + gobytes" where
  "decode_payload P c v = (if c = CompressionNone then Inr v else expand_value P c v)"

text \<open>The compression library gives back the value of a message: whatever
  \<open>Message.encode\<close> writes for the value, \<open>Message.decode\<close> makes the value of it again,
  under the codec tag it reads.\<close>

definition library_roundtrip :: "Compression \<Rightarrow> Message \<Rightarrow> bool" where
  "library_roundtrip P m \<longleftrightarrow>
     (\<forall>z. encode_payload P m = Inr z \<longrightarrow>
        decode_payload P (attributes_codec (codec_attributes (Codec m))) z = Inr (MsgValue m))"

text \<open>Modelled from the spec: the missing \<open>Message.decode\<close>, on the bytes not yet read.
  The four bytes of the checksum are set aside; the format byte, the attributes, the
  timestamp that a format byte of one or more announces (not kept: the record has no field
  for it), the key and the value are read; the checksum of the bytes read since is compared
  with the one set aside.\<close>

definition Message_decode :: "Compression \<Rightarrow> bytes \<Rightarrow> goerror + (Message \<times> bytes)" where
  "Message_decode P bs =
     (if length bs < 4 then Inl ErrInsufficientData
      else
        case wire_getInt8 (drop 4 bs) of Inl err \<Rightarrow> Inl err | Inr (format, b1) \<Rightarrow>
        case wire_getInt8 b1 of Inl err \<Rightarrow> Inl err | Inr (attributes, b2) \<Rightarrow>
        case (if 1 \<le> sint format
              then (case wire_getInt64 b2 of Inl err \<Rightarrow> Inl err | Inr (millis, b) \<Rightarrow> Inr b)
              else Inr b2) of Inl err \<Rightarrow> Inl err | Inr b3 \<Rightarrow>
        case wire_getBytes b3 of Inl err \<Rightarrow> Inl err | Inr (key, b4) \<Rightarrow>
        case wire_getBytes b4 of Inl err \<Rightarrow> Inl err | Inr (val, b5) \<Rightarrow>
        case decode_payload P (attributes_codec attributes) val of Inl err \<Rightarrow> Inl err
        | Inr val' \<Rightarrow>
        if crc32 (take (length bs - 4 - length b5) (drop 4 bs)) \<noteq> rd32 bs then Inl ErrChecksum
        else Inr (\<lparr>Codec = attributes_codec attributes, MsgKey = key, MsgValue = val'\<rparr>, b5))"

text \<open>Modelled from the spec: the missing \<open>MessageBlock.decode\<close>: the offset, the four
  bytes of the length field, the message, and the comparison of the length announced with
  the bytes the message took.\<close>

definition MessageBlock_decode :: "Compression \<Rightarrow> bytes \<Rightarrow> goerror + (MessageBlock \<times> bytes)" where
  "MessageBlock_decode P bs =
     (case wire_getInt64 bs of Inl err \<Rightarrow> Inl err | Inr (offset, b1) \<Rightarrow>
      if length b1 < 4 then Inl ErrInsufficientData
      else
        case Message_decode P (drop 4 b1) of Inl err \<Rightarrow> Inl err | Inr (m, b2) \<Rightarrow>
        if (of_nat (length b1 - 4 - length b2) :: 32 word) \<noteq> rd32 b1 then Inl ErrLengthField
        else Inr (\<lparr>Offset = offset, Msg = m\<rparr>, b2))"

text \<open>Modelled from the spec: the loop of the missing \<open>MessageSet.decode\<close>, which reads
  blocks while bytes remain. A block cut short at the end of the bytes is left out without
  an error; any other error is returned.\<close>

function decode_blocks :: "Compression \<Rightarrow> MessageBlock list \<Rightarrow> bytes \<Rightarrow> goerror + MessageSet" where
  "decode_blocks P acc bs =
     (if bs = [] then Inr \<lparr>Messages = acc\<rparr>
      else
        case MessageBlock_decode P bs of
          Inl err \<Rightarrow> if err = ErrInsufficientData then Inr \<lparr>Messages = acc\<rparr> else Inl err
        | Inr (msb, rest) \<Rightarrow> decode_blocks P (acc @ [msb]) rest)"
  by pat_completeness auto

termination
proof (relation "measure (\<lambda>(P, acc, bs). length bs)")
  show "wf (measure (\<lambda>(P, acc, bs). length bs))" by simp
next
  fix P :: Compression and acc :: "MessageBlock list" and bs :: bytes
    and x y and msb :: MessageBlock and rest :: bytes
  assume ne: "bs \<noteq> []" and d: "MessageBlock_decode P bs = Inr x" and x: "(msb, rest) = x"
  have g: "length r \<le> length b" if "wire_getBytes b = Inr (v, r)" for b v r
    using that
    by (auto simp: wire_getBytes_def wire_getInt32_def split: if_splits sum.splits prod.splits)
  have m: "length r \<le> length b" if "Message_decode P b = Inr (v, r)" for b v r
    using that
    by (auto simp: Message_decode_def wire_getInt8_def wire_getInt64_def
        split: if_splits sum.splits prod.splits dest!: g)
  from d x have "length rest < length bs"
    by (auto simp: MessageBlock_decode_def wire_getInt64_def
        split: if_splits sum.splits prod.splits dest!: m)
  then show "((P, acc @ [msb], rest), P, acc, bs) \<in> measure (\<lambda>(P, acc, bs). length bs)"
    by simp
qed

declare decode_blocks.simps [simp del]

definition MessageSet_decode :: "Compression \<Rightarrow> bytes \<Rightarrow> goerror + MessageSet" where
  "MessageSet_decode P bs = decode_blocks P [] bs"

text \<open>The keys and values of the messages of a set, in their order.\<close>

definition key_values :: "MessageSet \<Rightarrow> (gobytes \<times> gobytes) list" where
  "key_values ms = map (\<lambda>msb. (MsgKey (Msg msb), MsgValue (Msg msb))) (Messages ms)"

definition same_messages :: "MessageSet \<Rightarrow> MessageSet \<Rightarrow> bool" where
  "same_messages a b \<longleftrightarrow> key_values a = key_values b"

text \<open>What the round trip of a request needs of the codec of one of its message sets:
  \<open>encode\<close> appends bytes and leaves the fields pushed as they were, and \<open>decode\<close> reads
  those bytes back to an equivalent set.\<close>

definition set_roundtrip ::
  "('ms \<Rightarrow> wire_sink \<Rightarrow> goerror + wire_sink) \<Rightarrow> (bytes \<Rightarrow> goerror + 'ms) \<Rightarrow> ('ms \<Rightarrow> 'ms \<Rightarrow> bool)
   \<Rightarrow> 'ms \<Rightarrow> bool" where
  "set_roundtrip me md eqv ms \<longleftrightarrow>
     (\<forall>s s'. me ms s = Inr s' \<longrightarrow>
        (\<exists>bs ms'. written s' = written s @ bs \<and> reserved s' = reserved s
           \<and> md bs = Inr ms' \<and> eqv ms ms'))"

text \<open>Two maps with the same keys and equivalent message sets.\<close>

definition same_partitions ::
  "('ms \<Rightarrow> 'ms \<Rightarrow> bool) \<Rightarrow> (32 word \<rightharpoonup> 'ms) \<Rightarrow> (32 word \<rightharpoonup> 'ms) \<Rightarrow> bool" where
  "same_partitions eqv a b \<longleftrightarrow> (\<forall>p. rel_option eqv (a p) (b p))"

definition same_topics ::
  "('ms \<Rightarrow> 'ms \<Rightarrow> bool) \<Rightarrow> (string \<rightharpoonup> (32 word \<rightharpoonup> 'ms))
   \<Rightarrow> (string \<rightharpoonup> (32 word \<rightharpoonup> 'ms)) \<Rightarrow> bool" where
  "same_topics eqv a b \<longleftrightarrow> (\<forall>t. rel_option (same_partitions eqv) (a t) (b t))"

text \<open>A decoder of message sets that keeps the bytes of the sub-view, for a request with
  no topic, where it is not called.\<close>

definition raw_set_parse :: "bytes \<Rightarrow> goerror + bytes" where
  "raw_set_parse bs = Inr bs"

text \<open>No compression library: every codec but \<open>CompressionNone\<close> is an error.\<close>

definition no_compression :: Compression where
  "no_compression =
     \<lparr>compress_value = (\<lambda>c v. Inl (GoError ''unsupported compression codec'')),
      expand_value = (\<lambda>c v. Inl (GoError ''invalid compression specified''))\<rparr>"

text \<open>One topic, one partition, one uncompressed message with no key and a value of five
  bytes, acknowledged by all replicas.\<close>

definition hello_message :: Message where
  "hello_message =
     \<lparr>Codec = CompressionNone, MsgKey = None, MsgValue = Some [104, 101, 108, 108, 111]\<rparr>"

definition hello_set :: MessageSet where
  "hello_set = \<lparr>Messages = [\<lparr>Offset = 0, Msg = hello_message\<rparr>]\<rparr>"

definition hello_topics :: "(string \<times> (32 word \<times> MessageSet) list) list" where
  "hello_topics = [(''t'', [(0, hello_set)])]"

definition hello_request :: "MessageSet ProduceRequest" where
  "hello_request =
     \<lparr>RequiredAcks = WaitForAll, Timeout = 1000, Version = 0,
      msgSets = Some (map_of (topic_maps hello_topics))\<rparr>"

definition hello_wire :: bytes where
  "hello_wire =
     [255, 255,  0, 0, 3, 232,  0, 0, 0, 1,  0, 1, 116,  0, 0, 0, 1,
      0, 0, 0, 0,  0, 0, 0, 31,
      0, 0, 0, 0, 0, 0, 0, 0,  0, 0, 0, 19,  135, 167, 122, 178,
      0, 0,  255, 255, 255, 255,  0, 0, 0, 5,  104, 101, 108, 108, 111]"

definition empty_wire :: bytes where
  "empty_wire = [255, 255,  0, 0, 3, 232,  0, 0, 0, 0]"

section \<open>Basic facts\<close>

lemma and_then_Inr [simp]: "and_then (Inr x) f = f x"
  by (simp add: and_then_def)

lemma and_then_Inl [simp]: "and_then (Inl e) f = Inl e"
  by (simp add: and_then_def)

lemma go_rem_nonneg: "0 \<le> a \<Longrightarrow> 0 < b \<Longrightarrow> go_rem a b = Inr (a mod b)"
  by (cases "a = 0") (simp_all add: go_rem_def)

lemma go_rem_nat: "0 < L \<Longrightarrow> go_rem (int x) (int L) = Inr (int (x mod L))"
  by (simp add: go_rem_nonneg zmod_int)

lemma rotate_eq_drop_take: "h \<le> length xs \<Longrightarrow> rotate h xs = drop h xs @ take h xs"
  by (cases "h = length xs") (simp_all add: rotate_drop_take)

lemma go_slice_nat:
  "lo \<le> hi \<Longrightarrow> hi \<le> length xs \<Longrightarrow> go_slice xs (int lo) (int hi) = Inr (take (hi - lo) (drop lo xs))"
  by (simp add: go_slice_def nat_diff_distrib' flip: of_nat_diff)

lemma copy_at_nat:
  "off \<le> length dst \<Longrightarrow>
   copy_at dst (int off) src
     = Inr (take off dst @ take (length dst - off) src @ drop (off + length src) dst)"
  by (simp add: copy_at_def)

lemma make_slice_nat: "make_slice (int n) z = Inr (replicate n z)"
  by (simp add: make_slice_def)

lemma well_formed_nat:
  assumes "well_formed s"
  obtains h c where "head s = int h" "count s = int c" "h < length (buf s)" "c \<le> length (buf s)"
    "tail s = int ((h + c) mod length (buf s))"
proof -
  from assms have "0 \<le> head s" "0 \<le> count s" by (auto simp: well_formed_def geo_def)
  then obtain h c where hc: "head s = int h" "count s = int c"
    using nonneg_int_cases by metis
  with assms have "h < length (buf s)" "c \<le> length (buf s)"
    "tail s = int ((h + c) mod length (buf s))"
    by (auto simp: well_formed_def geo_def zmod_int)
  with hc that show thesis by blast
qed

lemma resize_eq:
  assumes "well_formed s" "0 < count s"
  shows "resize s = Inr (s\<lparr>head := 0, tail := count s,
            buf := live s @ replicate (nat (count s)) zero_ppbMessage\<rparr>)"
proof -
  let ?L = "length (buf s)" and ?z = zero_ppbMessage
  from assms(1) obtain h c where hc: "head s = int h" "count s = int c" "h < ?L" "c \<le> ?L"
    "tail s = int ((h + c) mod ?L)"
    by (rule well_formed_nat)
  from assms(2) hc have c0: "0 < c" by simp
  have rot: "ring s = drop h (buf s) @ take h (buf s)"
    using hc by (simp add: ring_def rotate_eq_drop_take)
  have mk: "make_slice (count s * 2) ?z = Inr (replicate (2 * c) ?z)"
    using make_slice_nat [of "2 * c" ?z] hc by (simp add: mult.commute)
  show ?thesis
  proof (cases "h + c < ?L")
    case True
    then have t: "tail s = int (h + c)" using hc by simp
    have lv: "live s = take c (drop h (buf s))"
      using True hc by (simp add: live_def rot)
    have sl: "go_slice (buf s) (head s) (tail s) = Inr (live s)"
      using go_slice_nat [of h "h + c" "buf s"] True hc t lv by simp
    have len: "length (live s) = c" using True lv by simp
    have cp: "copy_at (replicate (2 * c) ?z) 0 (live s) = Inr (live s @ replicate c ?z)"
      using copy_at_nat [of 0 "replicate (2 * c) ?z" "live s"] len by simp
    have gt: "tail s > head s" using t hc c0 by simp
    show ?thesis
      unfolding resize_def mk using gt sl cp hc by simp
  next
    case False
    then have ge: "?L \<le> h + c" by simp
    have "(h + c) mod ?L = h + c - ?L"
      using ge hc by (simp add: le_mod_geq)
    then have t: "tail s = int (h + c - ?L)" using hc by simp
    have th: "h + c - ?L \<le> h" using hc by simp
    have lv: "live s = drop h (buf s) @ take (h + c - ?L) (buf s)"
    proof -
      have "c - (?L - h) = h + c - ?L" using ge hc by linarith
      moreover have "?L - h \<le> c" using ge by linarith
      moreover have "live s = take c (drop h (buf s) @ take h (buf s))"
        using hc by (simp add: live_def rot)
      ultimately show ?thesis using th by (simp add: min_absorb1)
    qed
    have sl1: "go_slice (buf s) (head s) (int ?L) = Inr (drop h (buf s))"
      using go_slice_nat [of h ?L "buf s"] hc by simp
    have cp1: "copy_at (replicate (2 * c) ?z) 0 (drop h (buf s))
                = Inr (drop h (buf s) @ replicate (2 * c - (?L - h)) ?z)"
      using copy_at_nat [of 0 "replicate (2 * c) ?z" "drop h (buf s)"] ge hc by simp
    have sl2: "go_slice (buf s) 0 (tail s) = Inr (take (h + c - ?L) (buf s))"
      using go_slice_nat [of 0 "h + c - ?L" "buf s"] hc t by simp
    have off: "int ?L - head s = int (?L - h)" using hc by simp
    have cp2: "copy_at (drop h (buf s) @ replicate (2 * c - (?L - h)) ?z) (int (?L - h))
                  (take (h + c - ?L) (buf s))
                = Inr (live s @ replicate c ?z)"
    proof -
      have a: "?L - h \<le> length (drop h (buf s) @ replicate (2 * c - (?L - h)) ?z)" by simp
      have b: "length (take (h + c - ?L) (buf s)) = h + c - ?L" using hc by simp
      have c: "2 * c - (?L - h) - (h + c - ?L) = c" using ge hc by linarith
      show ?thesis
        unfolding copy_at_nat [OF a] lv using ge hc b c by simp
    qed
    have ngt: "\<not> tail s > head s" using t hc by simp
    show ?thesis
      unfolding resize_def mk using ngt sl1 cp1 sl2 cp2 hc off by simp
  qed
qed

lemma mod_add_inj:
  fixes h i j L :: nat
  assumes "i < L" "j < L" "(h + i) mod L = (h + j) mod L"
  shows "i = j"
proof -
  let ?a = "h mod L"
  from assms(1) have L: "0 < L" by simp
  have a: "?a < L" using L by simp
  have e: "(h + i) mod L = (?a + i) mod L" "(h + j) mod L = (?a + j) mod L"
    by (simp_all add: mod_add_left_eq)
  have r: "(?a + k) mod L = (if ?a + k < L then ?a + k else ?a + k - L)" if "k < L" for k
  proof (cases "?a + k < L")
    case True
    then show ?thesis by simp
  next
    case False
    then have "(?a + k) mod L = (?a + k - L) mod L" by (simp add: le_mod_geq)
    moreover have "?a + k - L < L" using that a by linarith
    ultimately show ?thesis using False by simp
  qed
  from assms(3) e have "(?a + i) mod L = (?a + j) mod L" by simp
  then have "(if ?a + i < L then ?a + i else ?a + i - L)
           = (if ?a + j < L then ?a + j else ?a + j - L)"
    using r [OF assms(1)] r [OF assms(2)] by simp
  then show ?thesis
    using assms(1,2) a by (simp split: if_splits; arith)
qed

lemma rotate_update:
  assumes "i < length xs"
  shows "rotate h (xs[(h + i) mod length xs := v]) = (rotate h xs)[i := v]"
proof (rule nth_equalityI)
  show "length (rotate h (xs[(h + i) mod length xs := v])) = length ((rotate h xs)[i := v])"
    by simp
next
  fix j assume "j < length (rotate h (xs[(h + i) mod length xs := v]))"
  then have j: "j < length xs" by simp
  have pos: "0 < length xs" using assms by (cases xs) auto
  have "rotate h (xs[(h + i) mod length xs := v]) ! j
          = (xs[(h + i) mod length xs := v]) ! ((h + j) mod length xs)"
    using j by (simp add: nth_rotate)
  also have "\<dots> = (if i = j then v else xs ! ((h + j) mod length xs))"
    using mod_add_inj [OF assms j, of h] pos by (auto simp: nth_list_update)
  also have "\<dots> = (rotate h xs)[i := v] ! j"
    using j assms by (simp add: nth_list_update nth_rotate)
  finally show "rotate h (xs[(h + i) mod length xs := v]) ! j = (rotate h xs)[i := v] ! j" .
qed

lemma ring_nth:
  "head s = int h \<Longrightarrow> i < length (buf s) \<Longrightarrow> ring s ! i = buf s ! ((h + i) mod length (buf s))"
  by (simp add: ring_def nth_rotate)

lemma length_ring [simp]: "length (ring s) = length (buf s)"
  by (simp add: ring_def)

lemma nonempty_if_less: "(h::nat) < length xs \<Longrightarrow> xs \<noteq> []"
  by auto

lemma hd_ring: "head s = int h \<Longrightarrow> h < length (buf s) \<Longrightarrow> hd (ring s) = buf s ! h"
proof -
  assume a: "head s = int h" "h < length (buf s)"
  then have "ring s \<noteq> []" using nonempty_if_less [of h "ring s"] by simp
  then have "hd (ring s) = ring s ! 0" by (simp add: hd_conv_nth)
  also have "\<dots> = buf s ! h"
    using a ring_nth [of s h 0] nonempty_if_less [of h "buf s"] by simp
  finally show ?thesis .
qed

text \<open>A write to the slot \<open>i\<close> places after the head.\<close>

lemma set_slot_ring:
  assumes "head s = int h" "i < length (buf s)"
  shows "\<exists>s'. set_slot s (int ((h + i) mod length (buf s))) f = Inr s'
           \<and> ring s' = (ring s)[i := f (ring s ! i)]
           \<and> length (buf s') = length (buf s)
           \<and> head s' = head s \<and> tail s' = tail s \<and> count s' = count s \<and> cur s' = cur s
           \<and> parent s' = parent s"
proof -
  let ?L = "length (buf s)" and ?k = "(h + i) mod length (buf s)"
  have "0 < ?L" using assms(2) by (cases "buf s") auto
  then have k: "?k < ?L" by simp
  have v: "buf s ! ?k = ring s ! i" using assms by (simp add: ring_nth)
  have "set_slot s (int ?k) f = Inr (s\<lparr>buf := (buf s)[?k := f (ring s ! i)]\<rparr>)"
    using k v by (simp add: set_slot_def)
  moreover have "ring (s\<lparr>buf := (buf s)[?k := f (ring s ! i)]\<rparr>) = (ring s)[i := f (ring s ! i)]"
    using assms by (simp add: ring_def rotate_update)
  ultimately show ?thesis by simp
qed

lemma geo_nat:
  assumes "geo s"
  obtains h where "head s = int h" "h < length (buf s)"
proof -
  from assms have "0 \<le> head s" by (simp add: geo_def)
  then obtain h where "head s = int h" using nonneg_int_cases by metis
  with assms that show thesis by (auto simp: geo_def)
qed

lemma rotate_Suc_mod: "rotate (Suc h mod length xs) xs = rotate1 (rotate h xs)"
  by (metis rotate_conv_mod rotate_Suc)

lemma drop_head_ring:
  assumes "geo s" "head s = int h"
  shows "\<exists>s'. drop_head s = Inr s'
           \<and> ring s' = tl (ring s) @ [wipe (hd (ring s))]
           \<and> length (buf s') = length (buf s)
           \<and> head s' = int (Suc h mod length (buf s))
           \<and> tail s' = tail s \<and> count s' = count s \<and> cur s' = cur s
           \<and> parent s' = parent s"
proof -
  let ?L = "length (buf s)"
  from assms have hL: "h < ?L" by (auto simp: geo_def)
  then have L: "0 < ?L" by linarith
  have h0: "int h = int ((h + 0) mod ?L)" using hL by simp
  obtain s1 where s1: "set_slot s (head s) (\<lambda>e. e\<lparr>ppb_in := None\<rparr>) = Inr s1"
    "ring s1 = (ring s)[0 := (ring s ! 0)\<lparr>ppb_in := None\<rparr>]" "length (buf s1) = ?L"
    "head s1 = head s" "tail s1 = tail s" "count s1 = count s" "cur s1 = cur s"
    "parent s1 = parent s"
    using set_slot_ring [OF assms(2) L, of "\<lambda>e. e\<lparr>ppb_in := None\<rparr>"] h0 assms(2) by auto
  have h1: "head s1 = int h" using s1 assms by simp
  have L1: "0 < length (buf s1)" using s1 L by simp
  have h01: "int h = int ((h + 0) mod length (buf s1))" using hL s1 by simp
  obtain s2 where s2: "set_slot s1 (head s1) (\<lambda>e. e\<lparr>ppb_out := None\<rparr>) = Inr s2"
    "ring s2 = (ring s1)[0 := (ring s1 ! 0)\<lparr>ppb_out := None\<rparr>]" "length (buf s2) = ?L"
    "head s2 = head s" "tail s2 = tail s" "count s2 = count s" "cur s2 = cur s"
    "parent s2 = parent s"
    using set_slot_ring [OF h1 L1, of "\<lambda>e. e\<lparr>ppb_out := None\<rparr>"] h01 h1 s1 by auto
  have r2: "ring s2 = (ring s)[0 := wipe (ring s ! 0)]"
    using s1 s2 L by (simp add: wipe_def)
  have rem: "go_rem (head s2 + 1) (int (length (buf s2))) = Inr (int (Suc h mod ?L))"
    using s2 assms L by (simp add: go_rem_nonneg zmod_int add.commute)
  let ?s' = "s2\<lparr>head := int (Suc h mod ?L)\<rparr>"
  have dh: "drop_head s = Inr ?s'"
    using s1 s2 rem by (simp add: drop_head_def)
  have bs: "rotate h (buf s2) = (ring s)[0 := wipe (ring s ! 0)]"
    using r2 s2 assms by (simp add: ring_def)
  have "ring ?s' = rotate (Suc h mod length (buf s2)) (buf s2)"
    using s2 by (simp add: ring_def)
  also have "\<dots> = rotate1 ((ring s)[0 := wipe (ring s ! 0)])"
    using bs by (simp add: rotate_Suc_mod)
  also have "\<dots> = tl (ring s) @ [wipe (hd (ring s))]"
  proof (cases "ring s")
    case Nil
    then have "length (ring s) = 0" by simp
    with L show ?thesis by simp
  next
    case (Cons a as)
    then show ?thesis by simp
  qed
  finally have "ring ?s' = tl (ring s) @ [wipe (hd (ring s))]" .
  with dh s2 show ?thesis by simp
qed

lemma ring_returnError [simp]: "ring (returnError m e s) = ring s"
  by (simp add: ring_def returnError_def)

lemma abandon_head_ring:
  assumes "geo s" "head s = int h"
  shows "\<exists>s'. abandon_head err s = Inr s'
           \<and> ring s' = tl (ring s) @ [wipe (hd (ring s))]
           \<and> length (buf s') = length (buf s)
           \<and> head s' = int (Suc h mod length (buf s))
           \<and> tail s' = tail s \<and> count s' = count s \<and> cur s' = cur s
           \<and> parent s' = (parent s)\<lparr>errors := errors (parent s) @ [(ppb_in (hd (ring s)), err)]\<rparr>"
proof -
  let ?L = "length (buf s)"
  from assms have hL: "h < ?L" by (auto simp: geo_def)
  then have L: "0 < ?L" by linarith
  have ix: "go_index (buf s) (head s) = Inr (hd (ring s))"
    using assms(2) hL hd_ring [OF assms(2) hL] by (simp add: go_index_def)
  let ?s1 = "returnError (ppb_in (hd (ring s))) err s"
  have g1: "geo ?s1" "head ?s1 = int h" using assms by (simp_all add: geo_def returnError_def)
  from drop_head_ring [OF g1] ix show ?thesis
    by (simp add: abandon_head_def) (simp add: returnError_def)
qed

lemma rot_step:
  "Suc k \<le> length r \<Longrightarrow>
   drop k (tl r @ [f (hd r)]) @ map f (take k (tl r @ [f (hd r)]))
     = drop (Suc k) r @ map f (take (Suc k) r)"
  by (cases r) simp_all

lemma take_step:
  "Suc k \<le> length r \<Longrightarrow> g (hd r) # map g (take k (tl r @ [w])) = map g (take (Suc k) r)"
  by (cases r) simp_all

lemma abandon_loop_ring:
  assumes "geo s" "head s = int h" "k \<le> length (buf s)"
  shows "\<exists>s'. abandon_loop k err s = Inr s'
           \<and> ring s' = drop k (ring s) @ map wipe (take k (ring s))
           \<and> length (buf s') = length (buf s)
           \<and> head s' = int ((h + k) mod length (buf s))
           \<and> tail s' = tail s \<and> count s' = count s \<and> cur s' = cur s
           \<and> parent s' = (parent s)\<lparr>errors := errors (parent s)
                 @ map (\<lambda>e. (ppb_in e, err)) (take k (ring s))\<rparr>"
  using assms
proof (induction k arbitrary: s h)
  case 0
  then show ?case by (simp add: geo_def)
next
  case (Suc k)
  let ?L = "length (buf s)"
  from Suc.prems have hL: "h < ?L" by (simp add: geo_def)
  from abandon_head_ring [OF Suc.prems(1,2), of err]
  obtain s1 where s1: "abandon_head err s = Inr s1"
    "ring s1 = tl (ring s) @ [wipe (hd (ring s))]" "length (buf s1) = ?L"
    "head s1 = int (Suc h mod ?L)" "tail s1 = tail s" "count s1 = count s" "cur s1 = cur s"
    "parent s1 = (parent s)\<lparr>errors := errors (parent s) @ [(ppb_in (hd (ring s)), err)]\<rparr>"
    by blast
  have "0 < ?L" using hL by linarith
  then have g1: "geo s1" using s1 by (simp add: geo_def)
  have k1: "k \<le> length (buf s1)" using Suc.prems s1 by simp
  from Suc.IH [OF g1 s1(4) k1]
  obtain s' where s': "abandon_loop k err s1 = Inr s'"
    "ring s' = drop k (ring s1) @ map wipe (take k (ring s1))"
    "length (buf s') = length (buf s1)"
    "head s' = int ((Suc h mod ?L + k) mod length (buf s1))"
    "tail s' = tail s1" "count s' = count s1" "cur s' = cur s1"
    "parent s' = (parent s1)\<lparr>errors := errors (parent s1)
         @ map (\<lambda>e. (ppb_in e, err)) (take k (ring s1))\<rparr>"
    by blast
  have len: "Suc k \<le> length (ring s)" using Suc.prems by simp
  have r: "ring s' = drop (Suc k) (ring s) @ map wipe (take (Suc k) (ring s))"
    using s'(2) s1(2) rot_step [OF len, of wipe] by simp
  have hd': "head s' = int ((h + Suc k) mod ?L)"
    using s'(4) s1(3) by (simp add: mod_add_left_eq)
  have pe: "parent s' = (parent s)\<lparr>errors := errors (parent s)
         @ map (\<lambda>e. (ppb_in e, err)) (take (Suc k) (ring s))\<rparr>"
    using s'(8) s1(8,2) take_step [OF len, of "\<lambda>e. (ppb_in e, err)"] by simp
  show ?case
    using s1(1) s' s1 r hd' pe by simp
qed

lemma markSuccess_body_ring:
  assumes "geo s" "head s = int h"
    "Return_Successes (conf (parent s)) \<longrightarrow> ppb_in (hd (ring s)) \<noteq> None"
  shows "\<exists>s'. markSuccess_body s = Inr s'
           \<and> ring s' = tl (ring s) @ [wipe (hd (ring s))]
           \<and> length (buf s') = length (buf s)
           \<and> head s' = int (Suc h mod length (buf s))
           \<and> tail s' = tail s \<and> count s' = count s \<and> cur s' = cur s
           \<and> parent s' = (parent s)\<lparr>successes := successes (parent s)
                 @ acked (Return_Successes (conf (parent s))) [hd (ring s)]\<rparr>"
proof (cases "Return_Successes (conf (parent s))")
  case False
  with drop_head_ring [OF assms(1,2)] show ?thesis
    by (simp add: markSuccess_body_def acked_def)
next
  case True
  let ?L = "length (buf s)"
  from assms have hL: "h < ?L" by (auto simp: geo_def)
  then have L: "0 < ?L" by linarith
  from True assms(3) obtain m where m: "ppb_in (hd (ring s)) = Some m" by auto
  have ix: "go_index (buf s) (head s) = Inr (hd (ring s))"
    using assms(2) hL hd_ring [OF assms(2) hL] by (simp add: go_index_def)
  have h0: "int h = int ((h + 0) mod ?L)" using hL by simp
  obtain s1 where s1: "set_slot s (head s) (\<lambda>e. e\<lparr>ppb_in := Some (clear m)\<rparr>) = Inr s1"
    "ring s1 = (ring s)[0 := (ring s ! 0)\<lparr>ppb_in := Some (clear m)\<rparr>]" "length (buf s1) = ?L"
    "head s1 = head s" "tail s1 = tail s" "count s1 = count s" "cur s1 = cur s"
    "parent s1 = parent s"
    using set_slot_ring [OF assms(2) L, of "\<lambda>e. e\<lparr>ppb_in := Some (clear m)\<rparr>"] h0 assms(2) by auto
  let ?s2 = "s1\<lparr>parent := (parent s1)\<lparr>successes := successes (parent s1) @ [clear m]\<rparr>\<rparr>"
  have g2: "geo ?s2" "head ?s2 = int h" using s1 assms by (simp_all add: geo_def)
  have r2: "ring ?s2 = ring s1" by (simp add: ring_def)
  have w: "tl (ring s1) @ [wipe (hd (ring s1))] = tl (ring s) @ [wipe (hd (ring s))]"
  proof (cases "ring s")
    case Nil
    then have "length (ring s) = 0" by simp
    with L show ?thesis by simp
  next
    case (Cons a as)
    then show ?thesis using s1(2) by (simp add: wipe_def)
  qed
  from drop_head_ring [OF g2] obtain s' where s': "drop_head ?s2 = Inr s'"
    "ring s' = tl (ring ?s2) @ [wipe (hd (ring ?s2))]"
    "length (buf s') = length (buf ?s2)"
    "head s' = int (Suc h mod length (buf ?s2))"
    "tail s' = tail ?s2" "count s' = count ?s2" "cur s' = cur ?s2" "parent s' = parent ?s2"
    by blast
  have ms: "markSuccess_body s = Inr s'"
    using True ix m s1(1) s'(1) by (simp add: markSuccess_body_def)
  show ?thesis
    using ms s' s1 r2 w m True by (simp add: acked_def)
qed

lemma markSuccess_loop_ring:
  assumes "geo s" "head s = int h" "k \<le> length (buf s)"
    "Return_Successes (conf (parent s)) \<longrightarrow> (\<forall>e \<in> set (take k (ring s)). ppb_in e \<noteq> None)"
  shows "\<exists>s'. markSuccess_loop k s = Inr s'
           \<and> ring s' = drop k (ring s) @ map wipe (take k (ring s))
           \<and> length (buf s') = length (buf s)
           \<and> head s' = int ((h + k) mod length (buf s))
           \<and> tail s' = tail s \<and> count s' = count s \<and> cur s' = cur s
           \<and> parent s' = (parent s)\<lparr>successes := successes (parent s)
                 @ acked (Return_Successes (conf (parent s))) (take k (ring s))\<rparr>"
  using assms
proof (induction k arbitrary: s h)
  case 0
  then show ?case by (simp add: geo_def acked_def)
next
  case (Suc k)
  let ?L = "length (buf s)" and ?rs = "Return_Successes (conf (parent s))"
  from Suc.prems have hL: "h < ?L" by (simp add: geo_def)
  have len: "Suc k \<le> length (ring s)" using Suc.prems by simp
  then obtain x xs where xs: "ring s = x # xs" by (cases "ring s") auto
  have nn: "?rs \<longrightarrow> ppb_in (hd (ring s)) \<noteq> None"
    using Suc.prems(4) xs by simp
  from markSuccess_body_ring [OF Suc.prems(1,2) nn]
  obtain s1 where s1: "markSuccess_body s = Inr s1"
    "ring s1 = tl (ring s) @ [wipe (hd (ring s))]" "length (buf s1) = ?L"
    "head s1 = int (Suc h mod ?L)" "tail s1 = tail s" "count s1 = count s" "cur s1 = cur s"
    "parent s1 = (parent s)\<lparr>successes := successes (parent s) @ acked ?rs [hd (ring s)]\<rparr>"
    by blast
  have "0 < ?L" using hL by linarith
  then have g1: "geo s1" using s1 by (simp add: geo_def)
  have k1: "k \<le> length (buf s1)" using Suc.prems s1 by simp
  have kx: "k \<le> length xs" using len xs by simp
  have nn1: "Return_Successes (conf (parent s1)) \<longrightarrow> (\<forall>e \<in> set (take k (ring s1)). ppb_in e \<noteq> None)"
    using Suc.prems(4) s1(2,8) xs kx by simp
  from Suc.IH [OF g1 s1(4) k1 nn1]
  obtain s' where s': "markSuccess_loop k s1 = Inr s'"
    "ring s' = drop k (ring s1) @ map wipe (take k (ring s1))"
    "length (buf s') = length (buf s1)"
    "head s' = int ((Suc h mod ?L + k) mod length (buf s1))"
    "tail s' = tail s1" "count s' = count s1" "cur s' = cur s1"
    "parent s' = (parent s1)\<lparr>successes := successes (parent s1)
         @ acked (Return_Successes (conf (parent s1))) (take k (ring s1))\<rparr>"
    by blast
  have r: "ring s' = drop (Suc k) (ring s) @ map wipe (take (Suc k) (ring s))"
    using s'(2) s1(2) rot_step [OF len, of wipe] by simp
  have hd': "head s' = int ((h + Suc k) mod ?L)"
    using s'(4) s1(3) by (simp add: mod_add_left_eq)
  have pe: "parent s' = (parent s)\<lparr>successes := successes (parent s)
         @ acked ?rs (take (Suc k) (ring s))\<rparr>"
    using s'(8) s1(8,2) xs kx by (simp add: acked_def)
  show ?case
    using s1(1) s' s1 r hd' pe by simp
qed

lemma retry_body_ring:
  assumes "head s = int h" "i < length (buf s)"
  shows "\<exists>s'. retry_body (s, int ((h + i) mod length (buf s)), a)
             = Inr (s', int ((h + Suc i) mod length (buf s)),
                    a + (if hit (Retry_Max (conf (parent s))) (ring s ! i) then 1 else 0))
           \<and> ring s' = (ring s)[i := incr (ring s ! i)]
           \<and> length (buf s') = length (buf s)
           \<and> head s' = head s \<and> tail s' = tail s \<and> count s' = count s \<and> cur s' = cur s
           \<and> parent s' = parent s"
proof -
  let ?L = "length (buf s)" and ?c = "int ((h + i) mod length (buf s))"
  have L: "0 < ?L" using assms(2) by linarith
  from set_slot_ring [OF assms, of "\<lambda>e. e\<lparr>retries := retries e + 1\<rparr>"]
  obtain s1 where s1: "set_slot s ?c (\<lambda>e. e\<lparr>retries := retries e + 1\<rparr>) = Inr s1"
    "ring s1 = (ring s)[i := incr (ring s ! i)]" "length (buf s1) = ?L"
    "head s1 = head s" "tail s1 = tail s" "count s1 = count s" "cur s1 = cur s"
    "parent s1 = parent s"
    by (auto simp: incr_def)
  have h1: "head s1 = int h" using s1 assms by simp
  have i1: "i < length (buf s1)" using s1 assms by simp
  have "buf s1 ! ((h + i) mod ?L) = ring s1 ! i"
    using ring_nth [OF h1 i1] s1 by simp
  also have "\<dots> = incr (ring s ! i)" using s1 assms by simp
  finally have ix: "go_index (buf s1) ?c = Inr (incr (ring s ! i))"
    using L s1 by (simp add: go_index_def)
  have "?c + 1 = int (Suc ((h + i) mod ?L))" by simp
  then have rem: "go_rem (?c + 1) (int (length (buf s1))) = Inr (int ((h + Suc i) mod ?L))"
    using go_rem_nat [OF L, of "Suc ((h + i) mod ?L)"] s1(3)
    by (simp add: mod_Suc_eq add.commute)
  have "retry_body (s, ?c, a)
          = Inr (s1, int ((h + Suc i) mod ?L),
                 if retries (incr (ring s ! i)) = Retry_Max (conf (parent s1)) then a + 1 else a)"
    using s1(1) ix rem by (simp add: retry_body_def)
  then show ?thesis using s1 by (auto simp: hit_def incr_def)
qed

lemma upd_step:
  "i < length r \<Longrightarrow>
   take (Suc i) (r[i := f (r ! i)]) @ map f (take k (drop (Suc i) (r[i := f (r ! i)])))
       @ drop (Suc i + k) (r[i := f (r ! i)])
   = take i r @ map f (take (Suc k) (drop i r)) @ drop (i + Suc k) r"
  by (simp add: take_Suc_conv_app_nth flip: Cons_nth_drop_Suc)

lemma retry_loop_ring:
  assumes "head s = int h" "i + k \<le> length (buf s)"
  shows "\<exists>s'. retry_loop k (s, int ((h + i) mod length (buf s)), a)
             = Inr (s', int ((h + (i + k)) mod length (buf s)),
                    a + int (length (filter (hit (Retry_Max (conf (parent s))))
                                            (take k (drop i (ring s))))))
           \<and> ring s' = take i (ring s) @ map incr (take k (drop i (ring s)))
                          @ drop (i + k) (ring s)
           \<and> length (buf s') = length (buf s)
           \<and> head s' = head s \<and> tail s' = tail s \<and> count s' = count s \<and> cur s' = cur s
           \<and> parent s' = parent s"
  using assms
proof (induction k arbitrary: s i a)
  case 0
  then show ?case by simp
next
  case (Suc k)
  let ?L = "length (buf s)" and ?mx = "Retry_Max (conf (parent s))"
  have iL: "i < ?L" using Suc.prems by simp
  let ?a1 = "a + (if hit ?mx (ring s ! i) then 1 else 0)"
  from retry_body_ring [OF Suc.prems(1) iL, of a]
  obtain s1 where s1: "retry_body (s, int ((h + i) mod ?L), a)
             = Inr (s1, int ((h + Suc i) mod ?L), ?a1)"
    "ring s1 = (ring s)[i := incr (ring s ! i)]" "length (buf s1) = ?L"
    "head s1 = head s" "tail s1 = tail s" "count s1 = count s" "cur s1 = cur s"
    "parent s1 = parent s"
    by blast
  have h1: "head s1 = int h" using s1 Suc.prems by simp
  have k1: "Suc i + k \<le> length (buf s1)" using s1 Suc.prems by simp
  from Suc.IH [OF h1 k1, of ?a1]
  obtain s' where s': "retry_loop k (s1, int ((h + Suc i) mod length (buf s1)), ?a1)
             = Inr (s', int ((h + (Suc i + k)) mod length (buf s1)),
                    ?a1 + int (length (filter (hit (Retry_Max (conf (parent s1))))
                                            (take k (drop (Suc i) (ring s1))))))"
    "ring s' = take (Suc i) (ring s1) @ map incr (take k (drop (Suc i) (ring s1)))
                          @ drop (Suc i + k) (ring s1)"
    "length (buf s') = length (buf s1)"
    "head s' = head s1" "tail s' = tail s1" "count s' = count s1" "cur s' = cur s1"
    "parent s' = parent s1"
    by blast
  have ir: "i < length (ring s)" using iL by simp
  have r: "ring s' = take i (ring s) @ map incr (take (Suc k) (drop i (ring s)))
                          @ drop (i + Suc k) (ring s)"
    using s'(2) s1(2) upd_step [OF ir, of incr k] by simp
  have d: "drop (Suc i) (ring s1) = drop (Suc i) (ring s)"
    using s1(2) by simp
  have f: "take (Suc k) (drop i (ring s)) = ring s ! i # take k (drop (Suc i) (ring s))"
    using ir by (simp flip: Cons_nth_drop_Suc)
  have cnt: "?a1 + int (length (filter (hit (Retry_Max (conf (parent s1))))
                                            (take k (drop (Suc i) (ring s1)))))
           = a + int (length (filter (hit ?mx) (take (Suc k) (drop i (ring s)))))"
    unfolding d f using s1(8) by simp
  have "retry_loop (Suc k) (s, int ((h + i) mod ?L), a)
          = Inr (s', int ((h + (i + Suc k)) mod ?L),
                 a + int (length (filter (hit ?mx) (take (Suc k) (drop i (ring s))))))"
    using s1(1) s'(1) s1(3) cnt by simp
  then show ?case using r s' s1 by simp
qed

lemma ring_ctl_update [simp]:
  "ring (s\<lparr>count := c\<rparr>) = ring s" "ring (s\<lparr>cur := d\<rparr>) = ring s"
  "ring (s\<lparr>tail := t\<rparr>) = ring s" "ring (s\<lparr>parent := p\<rparr>) = ring s"
  by (simp_all add: ring_def)

text \<open>After a removal loop has run \<open>k\<close> times, the subtraction of \<open>k\<close> from the two
  counters gives a well-formed queue again, without its \<open>k\<close> oldest entries.\<close>

lemma pop_well_formed:
  assumes "well_formed s" "head s = int h" "int k \<le> count s"
    "ring s1 = drop k (ring s) @ map wipe (take k (ring s))"
    "length (buf s1) = length (buf s)" "head s1 = int ((h + k) mod length (buf s))"
    "tail s1 = tail s" "count s1 = count s"
  shows "well_formed (s1\<lparr>count := count s1 - int k, cur := d\<rparr>)"
    and "live (s1\<lparr>count := count s1 - int k, cur := d\<rparr>) = drop k (live s)"
proof -
  let ?L = "length (buf s)"
  from assms(1) obtain h' c where hc: "head s = int h'" "count s = int c" "h' < ?L" "c \<le> ?L"
    "tail s = int ((h' + c) mod ?L)"
    by (rule well_formed_nat)
  from hc assms(2) have hh: "h' = h" by simp
  from assms(3) hc have kc: "k \<le> c" by simp
  have L: "0 < ?L" using hc by linarith
  have "((int h + int k) mod int ?L + (int c - int k)) mod int ?L
          = ((int h + int k) + (int c - int k)) mod int ?L"
    by (rule mod_add_left_eq)
  also have "(int h + int k) + (int c - int k) = int h + int c" by simp
  finally have "((int h + int k) mod int ?L + (int c - int k)) mod int ?L
          = (int h + int c) mod int ?L" .
  then have t: "tail s1 = (head s1 + (count s1 - int k)) mod int (length (buf s1))"
    using assms(5-8) hc hh by (simp add: zmod_int)
  show "well_formed (s1\<lparr>count := count s1 - int k, cur := d\<rparr>)"
    using t assms(5,6,8) hc kc L by (simp add: well_formed_def geo_def)
  have "live (s1\<lparr>count := count s1 - int k, cur := d\<rparr>) = take (c - k) (ring s1)"
    using assms(8) hc kc by (simp add: live_def nat_diff_distrib')
  also have "\<dots> = take (c - k) (drop k (ring s))"
    using assms(4) hc kc by simp
  also have "\<dots> = drop k (live s)"
    using hc by (simp add: live_def drop_take)
  finally show "live (s1\<lparr>count := count s1 - int k, cur := d\<rparr>) = drop k (live s)" .
qed

lemma length_live: "well_formed s \<Longrightarrow> length (live s) = nat (count s)"
  by (auto simp: live_def well_formed_def min_def)

lemma shrink_check_spec:
  assumes "well_formed s"
  shows "\<exists>s'. shrink_check s = Inr s' \<and> well_formed s' \<and> live s' = live s
           \<and> count s' = count s \<and> cur s' = cur s \<and> parent s' = parent s
           \<and> int (length (buf s')) =
               (if int (length (buf s)) > minQueueLen \<and> count s * 4 = int (length (buf s))
                then 2 * count s else int (length (buf s)))"
proof (cases "int (length (buf s)) > minQueueLen \<and> count s * 4 = int (length (buf s))")
  case False
  with assms show ?thesis by (auto simp: shrink_check_def)
next
  case True
  then have c0: "0 < count s" by (simp add: minQueueLen_def)
  let ?s' = "s\<lparr>head := 0, tail := count s,
            buf := live s @ replicate (nat (count s)) zero_ppbMessage\<rparr>"
  have sc: "shrink_check s = Inr ?s'"
    using True resize_eq [OF assms c0] by (simp add: shrink_check_def)
  have ll: "length (live s) = nat (count s)" using assms by (rule length_live)
  have w: "well_formed ?s'" using c0 ll by (simp add: well_formed_def geo_def)
  have l: "live ?s' = live s" using ll by (simp add: live_def ring_def)
  show ?thesis using sc w l True c0 ll by simp
qed

lemma slot_overwritten:
  "(e::ppbMessage)\<lparr>ppb_in := a, ppb_out := b, retries := r\<rparr>
     = \<lparr>ppb_in = a, ppb_out = b, retries = r\<rparr>"
  by (cases e) simp

lemma grow_spec:
  assumes "well_formed s"
  shows "\<exists>s'. (if count s = int (length (buf s)) then resize s else Inr s) = Inr s'
           \<and> well_formed s' \<and> live s' = live s \<and> count s' = count s \<and> cur s' = cur s
           \<and> parent s' = parent s \<and> count s' < int (length (buf s'))
           \<and> int (length (buf s')) =
               (if count s = int (length (buf s)) then 2 * count s else int (length (buf s)))"
proof (cases "count s = int (length (buf s))")
  case False
  with assms show ?thesis by (auto simp: well_formed_def)
next
  case True
  from assms have "0 < length (buf s)" by (auto simp: well_formed_def geo_def)
  with True have c0: "0 < count s" by simp
  let ?s' = "s\<lparr>head := 0, tail := count s,
            buf := live s @ replicate (nat (count s)) zero_ppbMessage\<rparr>"
  have ll: "length (live s) = nat (count s)" using assms by (rule length_live)
  have w: "well_formed ?s'" using c0 ll by (simp add: well_formed_def geo_def)
  have l: "live ?s' = live s" using ll by (simp add: live_def ring_def)
  show ?thesis using resize_eq [OF assms c0] w l True c0 ll by simp
qed

lemma add_spec:
  assumes "well_formed s" "encode_field (Key m) = Inr k" "encode_field (Value m) = Inr v"
  shows "\<exists>s'. add m s = Inr s' \<and> well_formed s' \<and> live s' = live s @ [entry m k v]
           \<and> count s' = count s + 1 \<and> cur s' = cur s \<and> parent s' = parent s
           \<and> int (length (buf s')) =
               (if count s = int (length (buf s)) then 2 * count s else int (length (buf s)))"
proof -
  from grow_spec [OF assms(1)]
  obtain s1 where s1: "(if count s = int (length (buf s)) then resize s else Inr s) = Inr s1"
    "well_formed s1" "live s1 = live s" "count s1 = count s" "cur s1 = cur s" "parent s1 = parent s"
    "count s1 < int (length (buf s1))"
    "int (length (buf s1)) =
       (if count s = int (length (buf s)) then 2 * count s else int (length (buf s)))"
    by blast
  let ?L = "length (buf s1)"
  from s1(2) obtain h c where hc: "head s1 = int h" "count s1 = int c" "h < ?L" "c \<le> ?L"
    "tail s1 = int ((h + c) mod ?L)"
    by (rule well_formed_nat)
  have cL: "c < ?L" using s1(7) hc by simp
  have L: "0 < ?L" using cL by linarith
  let ?out = "Some \<lparr>Codec = CompressionNone, MsgKey = k, MsgValue = v\<rparr>"
  from set_slot_ring [OF hc(1) cL, of "\<lambda>e. e\<lparr>ppb_in := Some m\<rparr>"]
  obtain s2 where s2: "set_slot s1 (tail s1) (\<lambda>e. e\<lparr>ppb_in := Some m\<rparr>) = Inr s2"
    "ring s2 = (ring s1)[c := (ring s1 ! c)\<lparr>ppb_in := Some m\<rparr>]" "length (buf s2) = ?L"
    "head s2 = head s1" "tail s2 = tail s1" "count s2 = count s1" "cur s2 = cur s1"
    "parent s2 = parent s1"
    using hc(5) by auto
  have h2: "head s2 = int h" and c2: "c < length (buf s2)" using s2 hc cL by simp_all
  from set_slot_ring [OF h2 c2, of "\<lambda>e. e\<lparr>ppb_out := ?out\<rparr>"]
  obtain s3 where s3: "set_slot s2 (tail s2) (\<lambda>e. e\<lparr>ppb_out := ?out\<rparr>) = Inr s3"
    "ring s3 = (ring s2)[c := (ring s2 ! c)\<lparr>ppb_out := ?out\<rparr>]" "length (buf s3) = ?L"
    "head s3 = head s1" "tail s3 = tail s1" "count s3 = count s1" "cur s3 = cur s1"
    "parent s3 = parent s1"
    using hc(5) s2 by auto
  have h3: "head s3 = int h" and c3: "c < length (buf s3)" using s3 hc cL by simp_all
  from set_slot_ring [OF h3 c3, of "\<lambda>e. e\<lparr>retries := 0\<rparr>"]
  obtain s4 where s4: "set_slot s3 (tail s3) (\<lambda>e. e\<lparr>retries := 0\<rparr>) = Inr s4"
    "ring s4 = (ring s3)[c := (ring s3 ! c)\<lparr>retries := 0\<rparr>]" "length (buf s4) = ?L"
    "head s4 = head s1" "tail s4 = tail s1" "count s4 = count s1" "cur s4 = cur s1"
    "parent s4 = parent s1"
    using hc(5) s3 by auto
  have r4: "ring s4 = (ring s1)[c := entry m k v]"
    using s2(2) s3(2) s4(2) cL by (simp add: entry_def slot_overwritten)
  have "tail s4 + 1 = int (Suc ((h + c) mod ?L))" using s4 hc by simp
  then have rem: "go_rem (tail s4 + 1) (int (length (buf s4))) = Inr (int ((h + Suc c) mod ?L))"
    using go_rem_nat [OF L, of "Suc ((h + c) mod ?L)"] s4(3)
    by (simp add: mod_Suc_eq add.commute)
  let ?s' = "s4\<lparr>tail := int ((h + Suc c) mod ?L), count := count s4 + 1\<rparr>"
  have ad: "add m s = Inr ?s'"
    using assms(2,3) s1(1) s2(1) s3(1) s4(1) rem by (simp add: add_def)
  have w: "well_formed ?s'"
    using s4 hc cL by (simp add: well_formed_def geo_def zmod_int add.commute add.left_commute)
  have "live ?s' = take (Suc c) ((ring s1)[c := entry m k v])"
    using s4 hc r4 by (simp add: live_def nat_add_distrib)
  also have "\<dots> = take c (ring s1) @ [entry m k v]"
    using cL by (simp add: take_Suc_conv_app_nth)
  also have "\<dots> = live s @ [entry m k v]"
    using s1(3) hc by (simp add: live_def)
  finally have l: "live ?s' = live s @ [entry m k v]" .
  show ?thesis
    using ad w l s4 s1 by simp
qed

lemma add_encode_error:
  assumes "encode_field (Key m) = Inl e \<or> (\<exists>k. encode_field (Key m) = Inr k \<and> encode_field (Value m) = Inl e)"
  shows "add m s = Inr (returnError (Some m) e s)"
  using assms by (auto simp: add_def)

lemma ppb_next_spec:
  assumes "well_formed s" "0 \<le> cur s" "cur s < count s"
  shows "ppb_next s = Inr (ppb_out (live s ! nat (cur s)), s\<lparr>cur := cur s + 1\<rparr>)"
proof -
  let ?L = "length (buf s)"
  from assms(1) obtain h c where hc: "head s = int h" "count s = int c" "h < ?L" "c \<le> ?L"
    "tail s = int ((h + c) mod ?L)"
    by (rule well_formed_nat)
  from assms(2) obtain d where d: "cur s = int d" using nonneg_int_cases by metis
  have dc: "d < c" using assms(3) d hc by simp
  have dL: "d < ?L" using dc hc by simp
  have L: "0 < ?L" using dL by linarith
  have "head s + cur s = int (h + d)" using hc d by simp
  then have rem: "go_rem (head s + cur s) (int ?L) = Inr (int ((h + d) mod ?L))"
    using go_rem_nat [OF L, of "h + d"] by simp
  have "buf s ! ((h + d) mod ?L) = ring s ! d" using ring_nth [OF hc(1) dL] by simp
  also have "\<dots> = live s ! d" using dc hc by (simp add: live_def)
  finally have ix: "go_index (buf s) (int ((h + d) mod ?L)) = Inr (live s ! d)"
    using L by (simp add: go_index_def)
  show ?thesis using rem ix d by (simp add: ppb_next_def)
qed

section \<open>What each operation does to the queue\<close>

lemma take_ring_live:
  "k \<le> nat (count s) \<Longrightarrow> take k (ring s) = take k (live s)"
  by (simp add: live_def min_absorb1)

lemma markSuccess_spec:
  assumes "well_formed s" "0 \<le> n" "n \<le> count s"
    "Return_Successes (conf (parent s))
       \<longrightarrow> (\<forall>e \<in> set (take (nat n) (live s)). ppb_in e \<noteq> None)"
  shows "\<exists>s'. markSuccess n s = Inr s' \<and> well_formed s' \<and> live s' = drop (nat n) (live s)
           \<and> count s' = count s - n \<and> cur s' = cur s - n
           \<and> parent s' = (parent s)\<lparr>successes := successes (parent s)
                 @ acked (Return_Successes (conf (parent s))) (take (nat n) (live s))\<rparr>
           \<and> int (length (buf s')) = shrunk_len (int (length (buf s))) (count s - n)"
proof -
  let ?L = "length (buf s)" and ?k = "nat n"
  from assms(1) obtain h c where hc: "head s = int h" "count s = int c" "h < ?L" "c \<le> ?L"
    "tail s = int ((h + c) mod ?L)"
    by (rule well_formed_nat)
  have g: "geo s" using assms(1) by (simp add: well_formed_def)
  have kc: "?k \<le> c" using assms(2,3) hc by simp
  have kL: "?k \<le> ?L" using kc hc by simp
  have tk: "take ?k (ring s) = take ?k (live s)"
    using kc hc by (simp add: take_ring_live)
  have nn: "Return_Successes (conf (parent s))
       \<longrightarrow> (\<forall>e \<in> set (take ?k (ring s)). ppb_in e \<noteq> None)"
    using assms(4) tk by simp
  from markSuccess_loop_ring [OF g hc(1) kL nn]
  obtain s1 where s1: "markSuccess_loop ?k s = Inr s1"
    "ring s1 = drop ?k (ring s) @ map wipe (take ?k (ring s))"
    "length (buf s1) = ?L" "head s1 = int ((h + ?k) mod ?L)"
    "tail s1 = tail s" "count s1 = count s" "cur s1 = cur s"
    "parent s1 = (parent s)\<lparr>successes := successes (parent s)
         @ acked (Return_Successes (conf (parent s))) (take ?k (ring s))\<rparr>"
    by blast
  have ik: "int ?k = n" using assms(2) by simp
  have ikc: "int ?k \<le> count s" using assms(3) ik by simp
  let ?s2 = "s1\<lparr>count := count s1 - n, cur := cur s1 - n\<rparr>"
  have w2: "well_formed ?s2" and l2: "live ?s2 = drop ?k (live s)"
    using pop_well_formed [OF assms(1) hc(1) ikc s1(2,3,4,5,6), of "cur s1 - n"] ik by simp_all
  from shrink_check_spec [OF w2]
  obtain s' where s': "shrink_check ?s2 = Inr s'" "well_formed s'" "live s' = live ?s2"
    "count s' = count ?s2" "cur s' = cur ?s2" "parent s' = parent ?s2"
    "int (length (buf s')) = shrunk_len (int (length (buf ?s2))) (count ?s2)"
    by (auto simp: shrunk_len_def)
  have "markSuccess n s = Inr s'" using s1(1) s'(1) by (simp add: markSuccess_def)
  then show ?thesis using s' l2 s1 tk by simp
qed

lemma markImmediateFailure_spec:
  assumes "well_formed s" "0 \<le> n" "n \<le> count s"
  shows "\<exists>s'. markImmediateFailure n err s = Inr s' \<and> well_formed s'
           \<and> live s' = drop (nat n) (live s)
           \<and> count s' = count s - n \<and> cur s' = cur s - n
           \<and> parent s' = (parent s)\<lparr>errors := errors (parent s)
                 @ map (\<lambda>e. (ppb_in e, err)) (take (nat n) (live s))\<rparr>
           \<and> int (length (buf s')) = shrunk_len (int (length (buf s))) (count s - n)"
proof -
  let ?L = "length (buf s)" and ?k = "nat n"
  from assms(1) obtain h c where hc: "head s = int h" "count s = int c" "h < ?L" "c \<le> ?L"
    "tail s = int ((h + c) mod ?L)"
    by (rule well_formed_nat)
  have g: "geo s" using assms(1) by (simp add: well_formed_def)
  have kc: "?k \<le> c" using assms(2,3) hc by simp
  have kL: "?k \<le> ?L" using kc hc by simp
  have tk: "take ?k (ring s) = take ?k (live s)"
    using kc hc by (simp add: take_ring_live)
  from abandon_loop_ring [OF g hc(1) kL, of err]
  obtain s1 where s1: "abandon_loop ?k err s = Inr s1"
    "ring s1 = drop ?k (ring s) @ map wipe (take ?k (ring s))"
    "length (buf s1) = ?L" "head s1 = int ((h + ?k) mod ?L)"
    "tail s1 = tail s" "count s1 = count s" "cur s1 = cur s"
    "parent s1 = (parent s)\<lparr>errors := errors (parent s)
         @ map (\<lambda>e. (ppb_in e, err)) (take ?k (ring s))\<rparr>"
    by blast
  have ik: "int ?k = n" using assms(2) by simp
  have ikc: "int ?k \<le> count s" using assms(3) ik by simp
  let ?s2 = "s1\<lparr>count := count s1 - n, cur := cur s1 - n\<rparr>"
  have w2: "well_formed ?s2" and l2: "live ?s2 = drop ?k (live s)"
    using pop_well_formed [OF assms(1) hc(1) ikc s1(2,3,4,5,6), of "cur s1 - n"] ik by simp_all
  from shrink_check_spec [OF w2]
  obtain s' where s': "shrink_check ?s2 = Inr s'" "well_formed s'" "live s' = live ?s2"
    "count s' = count ?s2" "cur s' = cur ?s2" "parent s' = parent ?s2"
    "int (length (buf s')) = shrunk_len (int (length (buf ?s2))) (count ?s2)"
    by (auto simp: shrunk_len_def)
  have "markImmediateFailure n err s = Inr s'"
    using s1(1) s'(1) by (simp add: markImmediateFailure_def)
  then show ?thesis using s' l2 s1 tk by simp
qed

lemma markFailure_spec:
  assumes "well_formed s" "n \<le> count s"
  defines "a \<equiv> abandoned (Retry_Max (conf (parent s))) n (live s)"
  shows "\<exists>s'. markFailure n err s = Inr s' \<and> well_formed s'
           \<and> live s' = drop a (retried n (live s))
           \<and> count s' = count s - int a \<and> cur s' = cur s - int a
           \<and> parent s' = (parent s)\<lparr>errors := errors (parent s)
                 @ map (\<lambda>e. (ppb_in e, err)) (take a (retried n (live s)))\<rparr>
           \<and> int (length (buf s')) = shrunk_len (int (length (buf s))) (count s - int a)"
proof -
  let ?L = "length (buf s)" and ?k = "nat n" and ?mx = "Retry_Max (conf (parent s))"
  from assms(1) obtain h c where hc: "head s = int h" "count s = int c" "h < ?L" "c \<le> ?L"
    "tail s = int ((h + c) mod ?L)"
    by (rule well_formed_nat)
  have kc: "?k \<le> c" using assms(2) hc by simp
  have kL: "0 + ?k \<le> ?L" using kc hc by simp
  have tk: "take ?k (ring s) = take ?k (live s)"
    using kc hc by (simp add: take_ring_live)
  have a_def': "a = length (filter (hit ?mx) (take ?k (ring s)))"
    using tk by (simp add: a_def abandoned_def)
  have ak: "a \<le> ?k" unfolding a_def'
    by (rule order_trans [OF length_filter_le]) simp
  from retry_loop_ring [OF hc(1) kL, of 0]
  obtain s1 where s1: "retry_loop ?k (s, head s, 0) = Inr (s1, int ((h + ?k) mod ?L), int a)"
    "ring s1 = map incr (take ?k (ring s)) @ drop ?k (ring s)"
    "length (buf s1) = ?L" "head s1 = head s" "tail s1 = tail s" "count s1 = count s"
    "cur s1 = cur s" "parent s1 = parent s"
    using hc(1,3) a_def' by auto
  have w1: "well_formed s1" using assms(1) s1 by (simp add: well_formed_def geo_def)
  have g1: "geo s1" using w1 by (simp add: well_formed_def)
  have h1: "head s1 = int h" using s1 hc by simp
  have l1: "live s1 = retried n (live s)"
  proof -
    have "live s1 = take c (map incr (take ?k (ring s)) @ drop ?k (ring s))"
      using s1 hc by (simp add: live_def)
    also have "\<dots> = map incr (take ?k (ring s)) @ take (c - ?k) (drop ?k (ring s))"
      using kc hc by (simp add: min_absorb2)
    also have "\<dots> = retried n (live s)"
      using kc hc by (simp add: retried_def live_def min_absorb1 drop_take)
    finally show ?thesis .
  qed
  have aL: "a \<le> length (buf s1)" using ak kc hc s1 by simp
  have ac: "a \<le> nat (count s1)" using ak kc hc s1 by simp
  have ta: "take a (ring s1) = take a (retried n (live s))"
    using take_ring_live [OF ac] l1 by simp
  from abandon_loop_ring [OF g1 h1 aL, of err]
  obtain s2 where s2: "abandon_loop a err s1 = Inr s2"
    "ring s2 = drop a (ring s1) @ map wipe (take a (ring s1))"
    "length (buf s2) = length (buf s1)" "head s2 = int ((h + a) mod length (buf s1))"
    "tail s2 = tail s1" "count s2 = count s1" "cur s2 = cur s1"
    "parent s2 = (parent s1)\<lparr>errors := errors (parent s1)
         @ map (\<lambda>e. (ppb_in e, err)) (take a (ring s1))\<rparr>"
    by blast
  have iac: "int a \<le> count s1" using ak kc hc s1 by simp
  let ?s3 = "s2\<lparr>count := count s2 - int a, cur := cur s2 - int a\<rparr>"
  have w3: "well_formed ?s3" and l3: "live ?s3 = drop a (live s1)"
    using pop_well_formed [OF w1 h1 iac s2(2,3,4,5,6), of "cur s2 - int a"] by simp_all
  from shrink_check_spec [OF w3]
  obtain s' where s': "shrink_check ?s3 = Inr s'" "well_formed s'" "live s' = live ?s3"
    "count s' = count ?s3" "cur s' = cur ?s3" "parent s' = parent ?s3"
    "int (length (buf s')) = shrunk_len (int (length (buf ?s3))) (count ?s3)"
    by (auto simp: shrunk_len_def)
  have mf: "markFailure n err s = Inr s'"
    using s1(1) s2(1) s'(1) by (simp add: markFailure_def)
  have lv: "live s' = drop a (retried n (live s))" using s'(3) l3 l1 by simp
  have cn: "count s' = count s - int a" "cur s' = cur s - int a"
    using s'(4,5) s2(6,7) s1(6,7) by simp_all
  have pa: "parent s' = (parent s)\<lparr>errors := errors (parent s)
                 @ map (\<lambda>e. (ppb_in e, err)) (take a (retried n (live s)))\<rparr>"
    using s'(6) s2(8) s1(8) ta by simp
  have ln: "int (length (buf s')) = shrunk_len (int (length (buf s))) (count s - int a)"
    using s'(7) s2(3,6) s1(3,6) by simp
  show ?thesis using mf s'(2) lv cn pa ln by blast
qed

lemma no_hits:
  assumes "\<forall>e \<in> set xs. retries e + 1 \<noteq> mx"
  shows "filter (hit mx) xs = []"
  using assms by (induction xs) (auto simp: hit_def)

lemma hits_prefix:
  assumes "older_first xs" "\<forall>e \<in> set xs. retries e < mx" "a = length (filter (hit mx) xs)"
  shows "(\<forall>e \<in> set (take a xs). hit mx e) \<and> (\<forall>e \<in> set (drop a xs). \<not> hit mx e)"
  using assms
proof (induction xs arbitrary: a)
  case Nil
  then show ?case by simp
next
  case (Cons x xs)
  from Cons.prems have srt: "older_first xs" and lt: "\<forall>e \<in> set xs. retries e < mx"
    and le: "\<forall>e \<in> set xs. retries e \<le> retries x" and x: "retries x < mx"
    by (simp_all add: older_first_def)
  define a' where "a' = length (filter (hit mx) xs)"
  show ?case
  proof (cases "hit mx x")
    case True
    then have a: "a = Suc a'" using Cons.prems(3) by (simp add: a'_def)
    from Cons.IH [OF srt lt a'_def]
    have "\<forall>e \<in> set (take a' xs). hit mx e" "\<forall>e \<in> set (drop a' xs). \<not> hit mx e"
      by blast+
    with True show ?thesis unfolding a by simp
  next
    case False
    with x have "retries x + 1 < mx" by (simp add: hit_def)
    with le have "\<forall>e \<in> set xs. retries e + 1 \<noteq> mx" by fastforce
    then have none: "\<forall>e \<in> set xs. \<not> hit mx e" by (simp add: hit_def)
    then have "filter (hit mx) xs = []" by (simp add: filter_empty_conv)
    with False Cons.prems(3) have "a = 0" by simp
    with False none show ?thesis by simp
  qed
qed

text \<open>In a state that satisfies the invariant, the entries counted by the first loop of
  \<open>markFailure\<close> are the oldest ones.\<close>

lemma abandoned_prefix:
  fixes n :: int
  assumes "older_first es" "\<forall>e \<in> set es. entry_ok mx e"
  defines "a \<equiv> abandoned mx n es"
  shows "a \<le> nat n" "a \<le> length es"
    "\<forall>e \<in> set (take a es). hit mx e"
    "\<forall>e \<in> set (drop a (take (nat n) es)). \<not> hit mx e"
proof -
  let ?xs = "take (nat n) es"
  show an: "a \<le> nat n" unfolding a_def abandoned_def
    by (rule order_trans [OF length_filter_le]) simp
  show "a \<le> length es" unfolding a_def abandoned_def
    by (rule order_trans [OF length_filter_le]) simp
  have srt: "older_first ?xs"
    using assms(1) by (simp add: older_first_def sorted_wrt_take)
  have al: "a = length (filter (hit mx) ?xs)" by (simp add: a_def abandoned_def)
  have pre: "(\<forall>e \<in> set (take a ?xs). hit mx e) \<and> (\<forall>e \<in> set (drop a ?xs). \<not> hit mx e)"
  proof (cases "1 \<le> mx")
    case True
    with assms(2) have "\<forall>e \<in> set ?xs. retries e < mx"
      by (auto simp: entry_ok_def dest: in_set_takeD)
    from hits_prefix [OF srt this al] show ?thesis .
  next
    case False
    with assms(2) have "\<forall>e \<in> set ?xs. retries e + 1 \<noteq> mx"
      by (auto simp: entry_ok_def dest!: in_set_takeD)
    then have "filter (hit mx) ?xs = []" by (rule no_hits)
    then have "a = 0" using al by simp
    moreover from \<open>filter (hit mx) ?xs = []\<close> have "\<forall>e \<in> set ?xs. \<not> hit mx e"
      by (simp add: filter_empty_conv)
    ultimately show ?thesis by simp
  qed
  have "take a ?xs = take a es" using an by (simp add: min_absorb1)
  with pre show "\<forall>e \<in> set (take a es). hit mx e" by simp
  from pre show "\<forall>e \<in> set (drop a (take (nat n) es)). \<not> hit mx e" by simp
qed

lemma retried_split:
  "a \<le> nat n \<Longrightarrow>
   drop a (retried n es) = map incr (drop a (take (nat n) es)) @ drop (nat n) es"
  by (cases "nat n \<le> length es") (simp_all add: retried_def drop_map min_def)

lemma take_retried:
  "a \<le> nat n \<Longrightarrow> take a (retried n es) = map incr (take a es)"
  by (cases "nat n \<le> length es") (simp_all add: retried_def take_map min_def)

lemma older_first_retried:
  assumes "older_first es"
  shows "older_first (retried n es)"
proof -
  have "set (take (nat n) es) \<subseteq> set es" "set (drop (nat n) es) \<subseteq> set es"
    by (auto dest: in_set_takeD in_set_dropD)
  have a: "sorted_wrt (\<lambda>a b. retries b \<le> retries a) (take (nat n) es @ drop (nat n) es)"
    using assms by (simp add: older_first_def)
  then have "\<forall>x \<in> set (take (nat n) es). \<forall>y \<in> set (drop (nat n) es). retries y \<le> retries x"
    unfolding sorted_wrt_append by blast
  moreover have "sorted_wrt (\<lambda>a b. retries b \<le> retries a) (map incr (take (nat n) es))"
    using a unfolding sorted_wrt_append by (simp add: sorted_wrt_map incr_def)
  moreover have "sorted_wrt (\<lambda>a b. retries b \<le> retries a) (drop (nat n) es)"
    using a unfolding sorted_wrt_append by simp
  ultimately show ?thesis
    unfolding older_first_def retried_def sorted_wrt_append
  proof (intro conjI ballI)
    fix x y
    assume c: "\<forall>x \<in> set (take (nat n) es). \<forall>y \<in> set (drop (nat n) es). retries y \<le> retries x"
      and x: "x \<in> set (map incr (take (nat n) es))" and y: "y \<in> set (drop (nat n) es)"
    from x obtain x0 where x0: "x0 \<in> set (take (nat n) es)" "x = incr x0" by auto
    from c x0 y have "retries y \<le> retries x0" by blast
    then show "retries y \<le> retries x" using x0 by (simp add: incr_def)
  qed
qed

lemma ppb_inv_returnError [simp]: "ppb_inv (returnError m e s) = ppb_inv s"
  by (simp add: ppb_inv_def well_formed_def geo_def live_def ring_def returnError_def)

lemma add_rejected:
  assumes "ppb_inv s" "add m s = Inr (returnError (Some m) e s)"
  shows "\<exists>s'. add m s = Inr s' \<and> ppb_inv s' \<and> conf (parent s') = conf (parent s)
           \<and> cur s' = cur s \<and> count s \<le> count s'
           \<and> successes (parent s') = successes (parent s)
           \<and> count s' + int (length (errors (parent s')))
                = count s + int (length (errors (parent s))) + 1"
proof -
  let ?s' = "returnError (Some m) e s"
  have "ppb_inv ?s'" using assms(1) by simp
  moreover have "conf (parent ?s') = conf (parent s)" "cur ?s' = cur s" "count ?s' = count s"
    "successes (parent ?s') = successes (parent s)"
    "length (errors (parent ?s')) = length (errors (parent s)) + 1"
    by (simp_all add: returnError_def)
  ultimately show ?thesis using assms(2) by simp
qed

lemma entry_ok_incr:
  "entry_ok mx e \<Longrightarrow> \<not> hit mx e \<Longrightarrow> entry_ok mx (incr e)"
  by (auto simp: entry_ok_def hit_def incr_def)

lemma older_first_snoc:
  assumes "older_first es" "\<forall>e \<in> set es. 0 \<le> retries e" "retries x = 0"
  shows "older_first (es @ [x])"
  using assms by (simp add: older_first_def sorted_wrt_append)

lemma older_first_drop: "older_first es \<Longrightarrow> older_first (drop k es)"
  by (simp add: older_first_def sorted_wrt_drop)

lemma step_add:
  assumes "ppb_inv s"
  shows "\<exists>s'. add m s = Inr s' \<and> ppb_inv s' \<and> conf (parent s') = conf (parent s)
           \<and> cur s' = cur s \<and> count s \<le> count s'
           \<and> successes (parent s') = successes (parent s)
           \<and> count s' + int (length (errors (parent s')))
                = count s + int (length (errors (parent s))) + 1"
proof -
  let ?mx = "Retry_Max (conf (parent s))"
  from assms have w: "well_formed s" and ok: "\<forall>e \<in> set (live s). entry_ok ?mx e"
    and srt: "older_first (live s)"
    by (simp_all add: ppb_inv_def)
  show ?thesis
  proof (cases "encode_field (Key m)")
    case (Inl e)
    then have "add m s = Inr (returnError (Some m) e s)" by (simp add: add_def)
    with assms show ?thesis by (rule add_rejected)
  next
    case k: (Inr k)
    show ?thesis
    proof (cases "encode_field (Value m)")
      case (Inl e)
      with k have "add m s = Inr (returnError (Some m) e s)" by (simp add: add_def)
      with assms show ?thesis by (rule add_rejected)
    next
      case v: (Inr v)
      from add_spec [OF w k v]
      obtain s' where s': "add m s = Inr s'" "well_formed s'" "live s' = live s @ [entry m k v]"
        "count s' = count s + 1" "cur s' = cur s" "parent s' = parent s"
        by blast
      have e: "entry_ok ?mx (entry m k v)" by (simp add: entry_ok_def entry_def)
      have nn: "\<forall>e \<in> set (live s). 0 \<le> retries e" using ok by (simp add: entry_ok_def)
      have "older_first (live s @ [entry m k v])"
        using srt nn by (rule older_first_snoc) (simp add: entry_def)
      then have "ppb_inv s'" using s' ok e by (simp add: ppb_inv_def)
      then show ?thesis using s' by simp
    qed
  qed
qed

lemma step_next:
  assumes "ppb_inv s" "0 \<le> cur s" "cur s < count s"
  shows "\<exists>s'. apply_op s Next = Inr s' \<and> ppb_inv s' \<and> parent s' = parent s
           \<and> cur s' = cur s + 1 \<and> count s' = count s"
proof -
  from assms have w: "well_formed s" by (simp add: ppb_inv_def)
  have "apply_op s Next = Inr (s\<lparr>cur := cur s + 1\<rparr>)"
    using ppb_next_spec [OF w assms(2,3)] by simp
  moreover have "ppb_inv (s\<lparr>cur := cur s + 1\<rparr>)"
    using assms(1) by (simp add: ppb_inv_def well_formed_def geo_def live_def)
  ultimately show ?thesis by simp
qed

lemma step_markSuccess:
  assumes "ppb_inv s" "0 \<le> n" "n \<le> count s"
  shows "\<exists>s'. markSuccess n s = Inr s' \<and> ppb_inv s' \<and> conf (parent s') = conf (parent s)
           \<and> count s' = count s - n \<and> cur s' = cur s - n
           \<and> errors (parent s') = errors (parent s)
           \<and> int (length (successes (parent s')))
                = int (length (successes (parent s)))
                  + (if Return_Successes (conf (parent s)) then n else 0)"
proof -
  let ?mx = "Retry_Max (conf (parent s))"
  from assms have w: "well_formed s" and ok: "\<forall>e \<in> set (live s). entry_ok ?mx e"
    and srt: "older_first (live s)"
    by (simp_all add: ppb_inv_def)
  have nn: "Return_Successes (conf (parent s))
       \<longrightarrow> (\<forall>e \<in> set (take (nat n) (live s)). ppb_in e \<noteq> None)"
    using ok by (auto simp: entry_ok_def dest: in_set_takeD)
  from markSuccess_spec [OF w assms(2,3) nn]
  obtain s' where s': "markSuccess n s = Inr s'" "well_formed s'"
    "live s' = drop (nat n) (live s)" "count s' = count s - n" "cur s' = cur s - n"
    "parent s' = (parent s)\<lparr>successes := successes (parent s)
                 @ acked (Return_Successes (conf (parent s))) (take (nat n) (live s))\<rparr>"
    by blast
  have "\<forall>e \<in> set (live s'). entry_ok ?mx e"
    using ok s'(3) by (auto dest: in_set_dropD)
  then have inv: "ppb_inv s'"
    using s' srt by (simp add: ppb_inv_def older_first_drop)
  have "length (take (nat n) (live s)) = nat n"
    using length_live [OF w] assms(3) by simp
  then have "int (length (acked (Return_Successes (conf (parent s))) (take (nat n) (live s))))
           = (if Return_Successes (conf (parent s)) then n else 0)"
    using assms(2) by (simp add: acked_def)
  then show ?thesis using s' inv by simp
qed

lemma step_markImmediateFailure:
  assumes "ppb_inv s" "0 \<le> n" "n \<le> count s"
  shows "\<exists>s'. markImmediateFailure n err s = Inr s' \<and> ppb_inv s'
           \<and> conf (parent s') = conf (parent s)
           \<and> count s' = count s - n \<and> cur s' = cur s - n
           \<and> successes (parent s') = successes (parent s)
           \<and> int (length (errors (parent s'))) = int (length (errors (parent s))) + n"
proof -
  let ?mx = "Retry_Max (conf (parent s))"
  from assms have w: "well_formed s" and ok: "\<forall>e \<in> set (live s). entry_ok ?mx e"
    and srt: "older_first (live s)"
    by (simp_all add: ppb_inv_def)
  from markImmediateFailure_spec [OF w assms(2,3), of err]
  obtain s' where s': "markImmediateFailure n err s = Inr s'" "well_formed s'"
    "live s' = drop (nat n) (live s)" "count s' = count s - n" "cur s' = cur s - n"
    "parent s' = (parent s)\<lparr>errors := errors (parent s)
                 @ map (\<lambda>e. (ppb_in e, err)) (take (nat n) (live s))\<rparr>"
    by blast
  have "\<forall>e \<in> set (live s'). entry_ok ?mx e"
    using ok s'(3) by (auto dest: in_set_dropD)
  then have inv: "ppb_inv s'"
    using s' srt by (simp add: ppb_inv_def older_first_drop)
  have "length (take (nat n) (live s)) = nat n"
    using length_live [OF w] assms(3) by simp
  then show ?thesis using s' inv assms(2) by simp
qed

lemma step_markFailure:
  assumes "ppb_inv s" "n \<le> count s"
  defines "a \<equiv> abandoned (Retry_Max (conf (parent s))) n (live s)"
  shows "\<exists>s'. markFailure n err s = Inr s' \<and> ppb_inv s'
           \<and> conf (parent s') = conf (parent s)
           \<and> count s' = count s - int a \<and> cur s' = cur s - int a \<and> a \<le> nat n
           \<and> successes (parent s') = successes (parent s)
           \<and> errors (parent s') = errors (parent s)
                 @ map (\<lambda>e. (ppb_in e, err)) (take a (live s))
           \<and> live s' = map incr (drop a (take (nat n) (live s))) @ drop (nat n) (live s)
           \<and> int (length (errors (parent s'))) = int (length (errors (parent s))) + int a"
proof -
  let ?mx = "Retry_Max (conf (parent s))"
  from assms have w: "well_formed s" and ok: "\<forall>e \<in> set (live s). entry_ok ?mx e"
    and srt: "older_first (live s)"
    by (simp_all add: ppb_inv_def)
  from abandoned_prefix [OF srt ok, of n]
  have an: "a \<le> nat n" and al: "a \<le> length (live s)"
    and nohit: "\<forall>e \<in> set (drop a (take (nat n) (live s))). \<not> hit ?mx e"
    by (simp_all add: a_def)
  from markFailure_spec [OF w assms(2), of err]
  obtain s' where s': "markFailure n err s = Inr s'" "well_formed s'"
    "live s' = drop a (retried n (live s))" "count s' = count s - int a"
    "cur s' = cur s - int a"
    "parent s' = (parent s)\<lparr>errors := errors (parent s)
                 @ map (\<lambda>e. (ppb_in e, err)) (take a (retried n (live s)))\<rparr>"
    unfolding a_def by blast
  have lv: "live s' = map incr (drop a (take (nat n) (live s))) @ drop (nat n) (live s)"
    using s'(3) retried_split [OF an] by simp
  have er: "map (\<lambda>e. (ppb_in e, err)) (take a (retried n (live s)))
          = map (\<lambda>e. (ppb_in e, err)) (take a (live s))"
    using take_retried [OF an, of "live s"] by (simp add: incr_def comp_def)
  have ok': "\<forall>e \<in> set (live s'). entry_ok ?mx e"
  proof
    fix e assume "e \<in> set (live s')"
    then consider e0 where "e0 \<in> set (drop a (take (nat n) (live s)))" "e = incr e0"
      | "e \<in> set (drop (nat n) (live s))"
      unfolding lv by auto
    then show "entry_ok ?mx e"
    proof cases
      case 1
      then have "e0 \<in> set (live s)" by (auto dest: in_set_dropD in_set_takeD)
      with ok nohit 1 show ?thesis by (simp add: entry_ok_incr)
    next
      case 2
      then have "e \<in> set (live s)" by (auto dest: in_set_dropD)
      with ok show ?thesis by simp
    qed
  qed
  have "older_first (live s')"
    unfolding s'(3) using srt by (simp add: older_first_retried older_first_drop)
  then have inv: "ppb_inv s'" using s' ok' by (simp add: ppb_inv_def)
  have "length (take a (live s)) = a" using al by simp
  then show ?thesis using s' inv lv er an by simp
qed

section \<open>Sequences of operations: invariants\<close>

lemma step_weak:
  assumes "ppb_inv s" "weak_pre s x"
  shows "\<exists>s'. apply_op s x = Inr s' \<and> ppb_inv s' \<and> conf (parent s') = conf (parent s)
           \<and> count s' + int (length (errors (parent s'))) + acks x
                = count s + int (length (errors (parent s))) + adds x
           \<and> int (length (successes (parent s')))
                = int (length (successes (parent s)))
                  + (if Return_Successes (conf (parent s)) then acks x else 0)
           \<and> (cursor_pre s x \<longrightarrow> 0 \<le> cur s \<longrightarrow> cur s \<le> count s
                 \<longrightarrow> 0 \<le> cur s' \<and> cur s' \<le> count s')"
proof (cases x)
  case (Add m)
  from step_add [OF assms(1), of m] Add show ?thesis by auto
next
  case Next
  from assms Next have "0 \<le> cur s" "cur s < count s" by simp_all
  from step_next [OF assms(1) this] Next show ?thesis by (auto simp: hasNext_def)
next
  case (MarkSuccess n)
  from assms MarkSuccess have "0 \<le> n" "n \<le> count s" by simp_all
  from step_markSuccess [OF assms(1) this] MarkSuccess show ?thesis by auto
next
  case (MarkFailure n err)
  from assms MarkFailure have n: "0 \<le> n" "n \<le> count s" by simp_all
  from step_markFailure [OF assms(1) n(2), of err] n(1) MarkFailure show ?thesis by auto
next
  case (MarkImmediateFailure n err)
  from assms MarkImmediateFailure have "0 \<le> n" "n \<le> count s" by simp_all
  from step_markImmediateFailure [OF assms(1) this, of err] MarkImmediateFailure
  show ?thesis by auto
qed

lemma cursor_weak:
  "cursor_pre s x \<Longrightarrow> 0 \<le> cur s \<Longrightarrow> cur s \<le> count s \<Longrightarrow> weak_pre s x"
  by (cases x) (auto simp: hasNext_def)

lemma count_weak: "count_pre s x \<Longrightarrow> weak_pre s x"
  by (cases x) (auto simp: hasNext_def)

lemma exec_cursor:
  assumes "ppb_inv s" "0 \<le> cur s" "cur s \<le> count s" "legal cursor_pre s ops"
  shows "\<exists>s'. exec s ops = Inr s' \<and> ppb_inv s' \<and> 0 \<le> cur s' \<and> cur s' \<le> count s'
           \<and> conf (parent s') = conf (parent s)"
  using assms
proof (induction ops arbitrary: s)
  case Nil
  then show ?case by simp
next
  case (Cons x xs)
  from Cons.prems have pre: "cursor_pre s x" by simp
  then have "weak_pre s x" using Cons.prems(2,3) by (rule cursor_weak)
  from step_weak [OF Cons.prems(1) this] pre Cons.prems(2,3)
  obtain s1 where s1: "apply_op s x = Inr s1" "ppb_inv s1" "0 \<le> cur s1" "cur s1 \<le> count s1"
    "conf (parent s1) = conf (parent s)"
    by blast
  from Cons.prems(4) s1(1) have "legal cursor_pre s1 xs" by simp
  from Cons.IH [OF s1(2,3,4) this] s1(1,5) show ?case by auto
qed

lemma legal_take: "legal P s ops \<Longrightarrow> legal P s (take k ops)"
proof (induction ops arbitrary: s k)
  case Nil
  then show ?case by simp
next
  case (Cons x xs)
  then show ?case by (cases k) (auto split: sum.splits)
qed

lemma ppb_inv_newPPB: "ppb_inv (newPPB p)"
  by (simp add: ppb_inv_def well_formed_def geo_def live_def newPPB_def minQueueLen_def
      older_first_def)

lemma cursor_inv_if:
  assumes "ppb_inv s" "0 \<le> cur s" "cur s \<le> count s"
  shows "cursor_inv s"
proof -
  from assms(1) have w: "well_formed s" by (simp add: ppb_inv_def)
  then obtain h c where hc: "head s = int h" "count s = int c" "h < length (buf s)"
    "c \<le> length (buf s)" "tail s = int ((h + c) mod length (buf s))"
    by (rule well_formed_nat)
  have "0 < length (buf s)" using hc by linarith
  then have "(h + c) mod length (buf s) < length (buf s)" by simp
  then have "0 \<le> tail s" "tail s < int (length (buf s))" using hc(5) by simp_all
  then show ?thesis using w assms(2,3) by (simp add: cursor_inv_def well_formed_def geo_def)
qed

lemma exec_accounting:
  assumes "ppb_inv s" "legal weak_pre s ops"
  shows "\<exists>s'. exec s ops = Inr s' \<and> ppb_inv s' \<and> conf (parent s') = conf (parent s)
           \<and> count s' + int (length (errors (parent s'))) + sum_list (map acks ops)
                = count s + int (length (errors (parent s))) + sum_list (map adds ops)
           \<and> int (length (successes (parent s')))
                = int (length (successes (parent s)))
                  + (if Return_Successes (conf (parent s)) then sum_list (map acks ops) else 0)"
  using assms
proof (induction ops arbitrary: s)
  case Nil
  then show ?case by simp
next
  case (Cons x xs)
  from Cons.prems have pre: "weak_pre s x" by simp
  from step_weak [OF Cons.prems(1) pre]
  obtain s1 where s1: "apply_op s x = Inr s1" "ppb_inv s1" "conf (parent s1) = conf (parent s)"
    "count s1 + int (length (errors (parent s1))) + acks x
       = count s + int (length (errors (parent s))) + adds x"
    "int (length (successes (parent s1)))
       = int (length (successes (parent s)))
         + (if Return_Successes (conf (parent s)) then acks x else 0)"
    by blast
  from Cons.prems(2) s1(1) have "legal weak_pre s1 xs" by simp
  from Cons.IH [OF s1(2) this]
  obtain s' where s': "exec s1 xs = Inr s'" "ppb_inv s'" "conf (parent s') = conf (parent s1)"
    "count s' + int (length (errors (parent s'))) + sum_list (map acks xs)
       = count s1 + int (length (errors (parent s1))) + sum_list (map adds xs)"
    "int (length (successes (parent s')))
       = int (length (successes (parent s1)))
         + (if Return_Successes (conf (parent s1)) then sum_list (map acks xs) else 0)"
    by blast
  have "exec s (x # xs) = Inr s'" using s1(1) s'(1) by simp
  moreover have "count s' + int (length (errors (parent s'))) + sum_list (map acks (x # xs))
                = count s + int (length (errors (parent s))) + sum_list (map adds (x # xs))"
    using s1(4) s'(4) by simp
  moreover have "int (length (successes (parent s')))
                = int (length (successes (parent s)))
                  + (if Return_Successes (conf (parent s)) then sum_list (map acks (x # xs)) else 0)"
    using s1(3,5) s'(5) by simp
  ultimately show ?case using s'(2,3) s1(3) by simp
qed

lemma legal_mono:
  assumes "\<And>s x. P s x \<Longrightarrow> Q s x" "legal P s ops"
  shows "legal Q s ops"
  using assms(2)
proof (induction ops arbitrary: s)
  case Nil
  then show ?case by simp
next
  case (Cons x xs)
  then show ?case using assms(1) by (auto split: sum.splits)
qed


lemma parent_errors_nil [simp]: "(p::asyncProducer)\<lparr>errors := errors p @ []\<rparr> = p"
  by simp




lemma single_ppb_reached: "exec (newPPB fresh_parent) [Add ok_msg, Next] = Inr single_ppb"
  by code_simp

text \<open>The entries of the backing array, read by the index arithmetic of the source.\<close>

lemma ring_nth_int:
  assumes "well_formed s" "i < length (buf s)"
  shows "ring s ! i = buf s ! nat ((head s + int i) mod int (length (buf s)))"
proof -
  from assms(1) obtain h c where hc: "head s = int h" "count s = int c" "h < length (buf s)"
    "c \<le> length (buf s)" "tail s = int ((h + c) mod length (buf s))"
    by (rule well_formed_nat)
  have "ring s ! i = buf s ! ((h + i) mod length (buf s))" using ring_nth [OF hc(1) assms(2)] .
  also have "(h + i) mod length (buf s) = nat ((head s + int i) mod int (length (buf s)))"
    using hc by (simp add: nat_mod_distrib nat_add_distrib)
  finally show ?thesis .
qed

lemma markFailure_no_abandon:
  assumes "well_formed s" "n \<le> count s"
    "\<forall>e \<in> set (take (nat n) (live s)). retries e + 1 \<noteq> Retry_Max (conf (parent s))"
  shows "\<exists>s1. markFailure n err s = shrink_check s1 \<and> well_formed s1
           \<and> ring s1 = map incr (take (nat n) (ring s)) @ drop (nat n) (ring s)
           \<and> length (buf s1) = length (buf s) \<and> head s1 = head s \<and> tail s1 = tail s
           \<and> count s1 = count s \<and> cur s1 = cur s \<and> parent s1 = parent s"
proof -
  let ?L = "length (buf s)" and ?k = "nat n" and ?mx = "Retry_Max (conf (parent s))"
  from assms(1) obtain h c where hc: "head s = int h" "count s = int c" "h < ?L" "c \<le> ?L"
    "tail s = int ((h + c) mod ?L)"
    by (rule well_formed_nat)
  have kc: "?k \<le> c" using assms(2) hc by simp
  have kL: "0 + ?k \<le> ?L" using kc hc by simp
  have tk: "take ?k (ring s) = take ?k (live s)"
    using kc hc by (simp add: take_ring_live)
  have "filter (hit ?mx) (take ?k (ring s)) = []"
    unfolding tk using assms(3) by (rule no_hits)
  then have z: "int (length (filter (hit ?mx) (take ?k (drop 0 (ring s))))) = 0" by simp
  from retry_loop_ring [OF hc(1) kL, of 0]
  obtain s1 where s1: "retry_loop ?k (s, head s, 0) = Inr (s1, int ((h + ?k) mod ?L), 0)"
    "ring s1 = map incr (take ?k (ring s)) @ drop ?k (ring s)"
    "length (buf s1) = ?L" "head s1 = head s" "tail s1 = tail s" "count s1 = count s"
    "cur s1 = cur s" "parent s1 = parent s"
    unfolding z using hc(1,3) by auto
  have w1: "well_formed s1" using assms(1) s1 by (simp add: well_formed_def geo_def)
  have "markFailure n err s = shrink_check s1"
    using s1(1) by (simp add: markFailure_def)
  then show ?thesis using w1 s1 by blast
qed

section \<open>The claims about sequences of operations\<close>

text \<open>
  C7: take any sequence of operations from a new buffer in which \<open>next\<close> is called only
  when \<open>hasNext()\<close> holds and every mark operation is called with a number \<open>n\<close> of
  entries between \<open>0\<close> and the cursor. No operation panics, and after every operation
  (after every prefix of the sequence) \<open>0 \<le> cur \<le> count \<le> len(buf)\<close>, \<open>head\<close> and
  \<open>tail\<close> are indices of the backing array, and \<open>tail = (head + count) mod len(buf)\<close>
  for the current backing array.
\<close>

theorem cursor_invariant:
  assumes "legal cursor_pre (newPPB p) ops"
  shows "\<forall>k \<le> length ops. \<exists>s. exec (newPPB p) (take k ops) = Inr s \<and> cursor_inv s"
proof (intro allI impI)
  fix k assume "k \<le> length ops"
  have r: "legal cursor_pre (newPPB p) (take k ops)" using assms by (rule legal_take)
  have c: "0 \<le> cur (newPPB p)" "cur (newPPB p) \<le> count (newPPB p)"
    by (simp_all add: newPPB_def)
  from exec_cursor [OF ppb_inv_newPPB c r]
  obtain s where "exec (newPPB p) (take k ops) = Inr s" "ppb_inv s" "0 \<le> cur s" "cur s \<le> count s"
    by blast
  then show "\<exists>s. exec (newPPB p) (take k ops) = Inr s \<and> cursor_inv s"
    using cursor_inv_if by blast
qed

theorem cursor_invariant_witness:
  "legal cursor_pre (newPPB fresh_parent) cycle_ops
   \<and> (\<exists>s. exec (newPPB fresh_parent) (take 2 cycle_ops) = Inr s \<and> cursor_inv s)
   \<and> (\<exists>s. exec (newPPB fresh_parent) (take 3 cycle_ops) = Inr s \<and> cursor_inv s)"
proof -
  have l: "legal cursor_pre (newPPB fresh_parent) cycle_ops" by code_simp
  have "(2::nat) \<le> length cycle_ops" "(3::nat) \<le> length cycle_ops"
    by (simp_all add: cycle_ops_def)
  with cursor_invariant [OF l] l show ?thesis by blast
qed

text \<open>
  C2: take any sequence of operations from a new buffer in which \<open>add\<close> is called only
  when the buffer is not \<open>full()\<close> and every mark operation is called with a number of
  entries between \<open>0\<close> and \<open>count\<close>. No operation panics, and the number of entries added
  equals the number acknowledged by \<open>markSuccess\<close>, plus the number delivered on the error
  channel, plus the number still in the buffer. When successes are returned, the number
  acknowledged is the number delivered on the success channel.
\<close>

theorem no_entry_lost:
  assumes "legal count_pre (newPPB p) ops"
  shows "\<exists>s. exec (newPPB p) ops = Inr s
           \<and> sum_list (map adds ops)
               = sum_list (map acks ops)
                 + (int (length (errors (parent s))) - int (length (errors p)))
                 + count s
           \<and> (Return_Successes (conf p) \<longrightarrow>
                int (length (successes (parent s)))
                  = int (length (successes p)) + sum_list (map acks ops))"
proof -
  have "legal weak_pre (newPPB p) ops"
    using count_weak assms by (rule legal_mono)
  from exec_accounting [OF ppb_inv_newPPB this]
  show ?thesis by (auto simp: newPPB_def)
qed

theorem no_entry_lost_witness:
  "legal count_pre (newPPB loud_parent) mixed_ops
   \<and> Return_Successes (conf loud_parent)
   \<and> (\<exists>s. exec (newPPB loud_parent) mixed_ops = Inr s
         \<and> 3 = 1 + int (length (errors (parent s))) + count s
         \<and> int (length (successes (parent s))) = 1)"
proof -
  have l: "legal count_pre (newPPB loud_parent) mixed_ops" by code_simp
  have r: "Return_Successes (conf loud_parent)" by (simp add: loud_parent_def)
  have a: "sum_list (map adds mixed_ops) = 3" "sum_list (map acks mixed_ops) = 1"
    by (simp_all add: mixed_ops_def)
  have e: "errors loud_parent = []" "successes loud_parent = []"
    by (simp_all add: loud_parent_def)
  from no_entry_lost [OF l] l r show ?thesis unfolding a e by auto
qed

text \<open>
  C4: in every state reached from a new buffer by operations that respect the cursor, no
  pending entry has a smaller retry counter than a newer one. \<open>markFailure(n, err)\<close> there
  abandons the \<open>a\<close> oldest entries, delivered in submission order with \<open>err\<close>, each of
  them at the retry limit; the other failed entries have not reached the limit and stay,
  in order, with their counters incremented. So no entry is abandoned while an older one
  is still pending.
\<close>

theorem retries_head_anchored:
  assumes "legal cursor_pre (newPPB p) ops" "exec (newPPB p) ops = Inr s" "0 \<le> n" "n \<le> cur s"
  shows "(\<forall>i j. i < j \<and> j < length (live s) \<longrightarrow> retries (live s ! j) \<le> retries (live s ! i))
       \<and> (\<exists>s' a. markFailure n err s = Inr s' \<and> a \<le> nat n
            \<and> errors (parent s') = errors (parent s)
                 @ map (\<lambda>e. (ppb_in e, err)) (take a (live s))
            \<and> (\<forall>e \<in> set (take a (live s)). retries e + 1 = Retry_Max (conf p))
            \<and> (\<forall>e \<in> set (drop a (take (nat n) (live s))). retries e + 1 \<noteq> Retry_Max (conf p))
            \<and> live s' = map incr (drop a (take (nat n) (live s))) @ drop (nat n) (live s))"
proof -
  have c: "0 \<le> cur (newPPB p)" "cur (newPPB p) \<le> count (newPPB p)"
    by (simp_all add: newPPB_def)
  from exec_cursor [OF ppb_inv_newPPB c assms(1)] assms(2)
  have inv: "ppb_inv s" and cur: "0 \<le> cur s" "cur s \<le> count s"
    and cf: "conf (parent s) = conf p"
    by (auto simp: newPPB_def)
  let ?mx = "Retry_Max (conf (parent s))"
  from inv have ok: "\<forall>e \<in> set (live s). entry_ok ?mx e" and srt: "older_first (live s)"
    by (simp_all add: ppb_inv_def)
  have n: "n \<le> count s" using assms(4) cur by simp
  define a where "a = abandoned ?mx n (live s)"
  from abandoned_prefix [OF srt ok, of n]
  have an: "a \<le> nat n"
    and hits: "\<forall>e \<in> set (take a (live s)). hit ?mx e"
    and nohit: "\<forall>e \<in> set (drop a (take (nat n) (live s))). \<not> hit ?mx e"
    by (simp_all add: a_def)
  from step_markFailure [OF inv n, of err]
  obtain s' where s': "markFailure n err s = Inr s'"
    "errors (parent s') = errors (parent s) @ map (\<lambda>e. (ppb_in e, err)) (take a (live s))"
    "live s' = map incr (drop a (take (nat n) (live s))) @ drop (nat n) (live s)"
    unfolding a_def by blast
  have order: "\<forall>i j. i < j \<and> j < length (live s) \<longrightarrow> retries (live s ! j) \<le> retries (live s ! i)"
    using srt by (simp add: older_first_def sorted_wrt_iff_nth_less)
  have h1: "\<forall>e \<in> set (take a (live s)). retries e + 1 = Retry_Max (conf p)"
    using hits cf by (simp add: hit_def)
  have h2: "\<forall>e \<in> set (drop a (take (nat n) (live s))). retries e + 1 \<noteq> Retry_Max (conf p)"
    using nohit cf by (simp add: hit_def)
  from order s' an h1 h2 show ?thesis by blast
qed

theorem retries_head_anchored_witness:
  "legal cursor_pre (newPPB fresh_parent) retry_ops
   \<and> retry_counters (exec (newPPB fresh_parent) retry_ops) = Inr [2, 0]
   \<and> (\<exists>s. exec (newPPB fresh_parent) retry_ops = Inr s \<and> 2 \<le> cur s
        \<and> (\<exists>s' a. markFailure 2 (GoError ''e'') s = Inr s' \<and> a \<le> 2
            \<and> errors (parent s') = errors (parent s)
                 @ map (\<lambda>e. (ppb_in e, GoError ''e'')) (take a (live s))
            \<and> (\<forall>e \<in> set (take a (live s)). retries e + 1 = 3)
            \<and> (\<forall>e \<in> set (drop a (take 2 (live s))). retries e + 1 \<noteq> 3)))"
proof -
  have l: "legal cursor_pre (newPPB fresh_parent) retry_ops" by code_simp
  have rc: "retry_counters (exec (newPPB fresh_parent) retry_ops) = Inr [2, 0]" by code_simp
  have sh: "shape (exec (newPPB fresh_parent) retry_ops) = Inr (16, 0, 2, 2, 2)" by code_simp
  then obtain s where s: "exec (newPPB fresh_parent) retry_ops = Inr s"
    by (cases "exec (newPPB fresh_parent) retry_ops") (simp_all add: shape_def)
  with sh have cur: "cur s = 2" by (simp add: shape_def)
  then have n: "(0::int) \<le> 2" "2 \<le> cur s" by simp_all
  have mx: "Retry_Max (conf fresh_parent) = 3" by (simp add: fresh_parent_def)
  from retries_head_anchored [OF l s n, of "GoError ''e''"] l rc s cur mx
  show ?thesis by auto
qed



text \<open>
  C10, as stated, fails. With \<open>Retry.Max = 0\<close>, 17 adds, 10 drafts, a \<open>markSuccess(10)\<close>
  (which leaves 7 entries in 32 slots, no shrink), one more add and one more draft give a
  buffer of 32 slots with \<open>head = 10\<close> and 8 entries. \<open>markFailure(1, err)\<close> abandons
  nothing, but its closing shrink check finds \<open>4 * 8 = 32\<close> and calls \<open>resize\<close>: the
  backing array is replaced by one of 16 slots and \<open>head\<close> moves from 10 to 0.
\<close>

theorem markFailure_shrinks:
  "Retry_Max (conf zero_retry_parent) = 0
   \<and> legal cursor_pre (newPPB zero_retry_parent) shrinkable_ops
   \<and> shape (exec (newPPB zero_retry_parent) shrinkable_ops) = Inr (32, 10, 18, 8, 1)
   \<and> shape (and_then (exec (newPPB zero_retry_parent) shrinkable_ops)
              (markFailure 1 (GoError ''e''))) = Inr (16, 0, 8, 8, 1)"
  by code_simp

text \<open>
  C10, amended: with \<open>Retry.Max \<le> 0\<close>, on a well-formed buffer that holds at least \<open>n\<close>
  entries, each with a retry counter that is not negative and is below \<open>MaxInt64\<close> (so
  that the increment does not wrap), \<open>markFailure(n, err)\<close> abandons nothing and
  delivers nothing: \<open>count\<close> and the cursor are unchanged and the queue of live entries is
  the same but for the retry counters of the oldest \<open>n\<close>, each incremented by one. Unless
  the shrink check fires, \<open>head\<close> and \<open>tail\<close> are unchanged too and the backing array
  differs in those counters only; when it fires (\<open>len(buf) > 16\<close> and
  \<open>4 * count = len(buf)\<close>), the entries are moved to a new array of length \<open>2 * count\<close>
  with \<open>head = 0\<close>.
\<close>

theorem markFailure_without_limit:
  assumes "well_formed s" "n \<le> count s" "Retry_Max (conf (parent s)) \<le> 0"
    "\<forall>e \<in> set (live s). 0 \<le> retries e \<and> retries e < MaxInt64"
  shows "\<exists>s'. markFailure n err s = Inr s' \<and> parent s' = parent s
           \<and> count s' = count s \<and> cur s' = cur s
           \<and> live s' = map incr (take (nat n) (live s)) @ drop (nat n) (live s)
           \<and> (if int (length (buf s)) > minQueueLen \<and> count s * 4 = int (length (buf s))
               then head s' = 0 \<and> tail s' = count s \<and> int (length (buf s')) = 2 * count s
               else head s' = head s \<and> tail s' = tail s \<and> length (buf s') = length (buf s)
                 \<and> (\<forall>i < length (buf s).
                      buf s' ! nat ((head s + int i) mod int (length (buf s)))
                        = (if int i < n
                           then incr (buf s ! nat ((head s + int i) mod int (length (buf s))))
                           else buf s ! nat ((head s + int i) mod int (length (buf s))))))"
proof -
  let ?L = "length (buf s)" and ?k = "nat n"
  have nh: "\<forall>e \<in> set (take ?k (live s)). retries e + 1 \<noteq> Retry_Max (conf (parent s))"
    using assms(3,4) by (fastforce dest: in_set_takeD)
  from markFailure_no_abandon [OF assms(1,2) nh, of err]
  obtain s1 where s1: "markFailure n err s = shrink_check s1" "well_formed s1"
    "ring s1 = map incr (take ?k (ring s)) @ drop ?k (ring s)"
    "length (buf s1) = ?L" "head s1 = head s" "tail s1 = tail s"
    "count s1 = count s" "cur s1 = cur s" "parent s1 = parent s"
    by blast
  have kc: "?k \<le> nat (count s)" using assms(2) by simp
  have l1: "live s1 = map incr (take ?k (live s)) @ drop ?k (live s)"
  proof -
    have "live s1 = take (nat (count s)) (map incr (take ?k (ring s)) @ drop ?k (ring s))"
      using s1 by (simp add: live_def)
    also have "\<dots> = map incr (take ?k (ring s)) @ take (nat (count s) - ?k) (drop ?k (ring s))"
      using kc length_live [OF assms(1)] by (simp add: live_def min_def)
    also have "\<dots> = map incr (take ?k (live s)) @ drop ?k (live s)"
      using kc by (simp add: live_def min_absorb1 drop_take)
    finally show ?thesis .
  qed
  show ?thesis
  proof (cases "int ?L > minQueueLen \<and> count s * 4 = int ?L")
    case True
    then have c0: "0 < count s1" using s1(7) by (simp add: minQueueLen_def)
    from True have "shrink_check s1 = resize s1" using s1(4,7) by (simp add: shrink_check_def)
    also have "\<dots> = Inr (s1\<lparr>head := 0, tail := count s1,
            buf := live s1 @ replicate (nat (count s1)) zero_ppbMessage\<rparr>)"
      using s1(2) c0 by (rule resize_eq)
    finally have mf: "markFailure n err s = Inr (s1\<lparr>head := 0, tail := count s1,
            buf := live s1 @ replicate (nat (count s1)) zero_ppbMessage\<rparr>)"
      using s1(1) by simp
    have ll: "length (live s1) = nat (count s1)" using s1(2) by (rule length_live)
    have "live (s1\<lparr>head := 0, tail := count s1,
            buf := live s1 @ replicate (nat (count s1)) zero_ppbMessage\<rparr>) = live s1"
      using ll by (simp add: live_def ring_def)
    then show ?thesis using mf True s1 l1 ll c0 by simp
  next
    case False
    then have "\<not> (int (length (buf s1)) > minQueueLen \<and> count s1 * 4 = int (length (buf s1)))"
      using s1(4,7) by simp
    then have "shrink_check s1 = Inr s1" by (auto simp: shrink_check_def)
    then have mf: "markFailure n err s = Inr s1"
      using s1(1) by simp
    have el: "\<forall>i < ?L. buf s1 ! nat ((head s + int i) mod int ?L)
                = (if int i < n then incr (buf s ! nat ((head s + int i) mod int ?L))
                   else buf s ! nat ((head s + int i) mod int ?L))"
    proof (intro allI impI)
      fix i assume i: "i < ?L"
      have i1: "i < length (buf s1)" using i s1(4) by simp
      have a: "ring s1 ! i = buf s1 ! nat ((head s + int i) mod int ?L)"
        using ring_nth_int [OF s1(2) i1] s1(4,5) by simp
      have b: "ring s ! i = buf s ! nat ((head s + int i) mod int ?L)"
        using ring_nth_int [OF assms(1) i] .
      have "ring s1 ! i = (if i < ?k then incr (ring s ! i) else ring s ! i)"
        using i unfolding s1(3) by (auto simp: nth_append min_def)
      moreover have "i < ?k \<longleftrightarrow> int i < n" by auto
      ultimately show "buf s1 ! nat ((head s + int i) mod int ?L)
                = (if int i < n then incr (buf s ! nat ((head s + int i) mod int ?L))
                   else buf s ! nat ((head s + int i) mod int ?L))"
        using a b by simp
    qed
    have fields: "parent s1 = parent s \<and> count s1 = count s \<and> cur s1 = cur s
           \<and> live s1 = map incr (take ?k (live s)) @ drop ?k (live s)
           \<and> head s1 = head s \<and> tail s1 = tail s \<and> length (buf s1) = ?L"
      using s1 l1 by simp
    show ?thesis
      apply (rule exI [of _ s1])
      apply (simp only: if_not_P [OF False])
      using mf fields el apply blast
      done
  qed
qed

theorem markFailure_without_limit_witness:
  "well_formed zero_retry_ppb \<and> 2 \<le> count zero_retry_ppb
   \<and> Retry_Max (conf (parent zero_retry_ppb)) \<le> 0
   \<and> map retries (live zero_retry_ppb) = [3, 2] \<and> 3 < MaxInt64
   \<and> (\<exists>s'. markFailure 2 (GoError ''e'') zero_retry_ppb = Inr s'
         \<and> parent s' = parent zero_retry_ppb \<and> count s' = 2 \<and> head s' = 3
         \<and> map retries (live s') = [4, 3])"
proof -
  have w: "well_formed zero_retry_ppb"
    by (simp add: well_formed_def geo_def zero_retry_ppb_def wrapped_ppb_def)
  have c: "2 \<le> count zero_retry_ppb" "count zero_retry_ppb = 2" "head zero_retry_ppb = 3"
    by (simp_all add: zero_retry_ppb_def wrapped_ppb_def)
  have m: "Retry_Max (conf (parent zero_retry_ppb)) \<le> 0"
    by (simp add: zero_retry_ppb_def zero_retry_parent_def)
  have lv: "map retries (live zero_retry_ppb) = [3, 2]" by code_simp
  have mx: "3 < MaxInt64" by (simp add: MaxInt64_def)
  have r: "\<forall>e \<in> set (live zero_retry_ppb). 0 \<le> retries e \<and> retries e < MaxInt64"
  proof
    fix e assume "e \<in> set (live zero_retry_ppb)"
    then have "retries e \<in> set (map retries (live zero_retry_ppb))" by simp
    then show "0 \<le> retries e \<and> retries e < MaxInt64" unfolding lv using mx by auto
  qed
  have ns: "\<not> (int (length (buf zero_retry_ppb)) > minQueueLen
              \<and> count zero_retry_ppb * 4 = int (length (buf zero_retry_ppb)))"
    by (simp add: zero_retry_ppb_def wrapped_ppb_def minQueueLen_def)
  have two: "length (live zero_retry_ppb) = 2" using lv by (metis length_map length_Cons list.size(3) numeral_2_eq_2)
  from markFailure_without_limit [OF w c(1) m r, of "GoError ''e''"]
  obtain s' where s': "markFailure 2 (GoError ''e'') zero_retry_ppb = Inr s'"
    "parent s' = parent zero_retry_ppb" "count s' = count zero_retry_ppb"
    "live s' = map incr (take (nat 2) (live zero_retry_ppb)) @ drop (nat 2) (live zero_retry_ppb)"
    "head s' = head zero_retry_ppb"
    unfolding if_not_P [OF ns] by blast
  have "map retries (live s') = map (\<lambda>r. r + 1) (map retries (live zero_retry_ppb))"
    unfolding s'(4) using two by (simp add: incr_def comp_def)
  then have "map retries (live s') = [4, 3]" unfolding lv by simp
  then show ?thesis using w c m lv mx s' by auto
qed

text \<open>
  C1: the band \<open>count \<le> len(buf) \<le> 4 * count\<close> (or \<open>len(buf) = 16\<close>) is lost by a batch
  removal. After 17 adds the array has 32 slots; after 10 drafts, \<open>markSuccess(10)\<close> leaves
  7 entries, and its shrink check \<open>count * 4 == len(buf)\<close> compares 28 with 32 and does not
  shrink: \<open>32 > 4 * 7\<close>.
\<close>

theorem batch_removal_leaves_band:
  "legal cursor_pre (newPPB fresh_parent) batch_ops
   \<and> shape (exec (newPPB fresh_parent) batch_ops) = Inr (32, 10, 17, 7, 0)
   \<and> \<not> holds in_band (exec (newPPB fresh_parent) batch_ops)"
  by code_simp

section \<open>resize\<close>

text \<open>The live entries are the slots \<open>head\<close>, \<open>head + 1\<close>, \dots, taken modulo the length
  of the backing array.\<close>

lemma live_nth:
  assumes "well_formed s" "i < nat (count s)"
  shows "live s ! i = buf s ! nat ((head s + int i) mod int (length (buf s)))"
proof -
  from assms(1) obtain h c where hc: "head s = int h" "count s = int c" "h < length (buf s)"
    "c \<le> length (buf s)" "tail s = int ((h + c) mod length (buf s))"
    by (rule well_formed_nat)
  have i: "i < length (buf s)" using assms(2) hc by simp
  have "live s ! i = ring s ! i" using assms(2) by (simp add: live_def)
  also have "\<dots> = buf s ! ((h + i) mod length (buf s))" using ring_nth [OF hc(1) i] .
  also have "(h + i) mod length (buf s) = nat ((head s + int i) mod int (length (buf s)))"
    using hc by (simp add: nat_mod_distrib nat_add_distrib)
  finally show ?thesis .
qed

text \<open>
  \<open>resize\<close> is called with at least one live entry: by \<open>add\<close> when
  \<open>count == len(buf)\<close>, and by the shrink check when \<open>count * 4 == len(buf)\<close> and
  \<open>len(buf) > 16\<close>; the backing array is never empty.
\<close>

lemma add_resizes_nonempty:
  assumes "well_formed s" "count s = int (length (buf s))"
  shows "0 < count s"
  using assms by (auto simp: well_formed_def geo_def)

lemma shrink_check_resizes_nonempty:
  assumes "int (length (buf s)) > minQueueLen" "count s * 4 = int (length (buf s))"
  shows "0 < count s"
  using assms by (simp add: minQueueLen_def)

text \<open>
  C8: for every well-formed buffer state with \<open>count\<close> live entries, as \<open>resize\<close> is
  called with (\<open>count > 0\<close>; the wrapped case \<open>head \<ge> tail\<close> included), \<open>resize\<close>
  returns a backing array of length \<open>2 * count\<close> whose first \<open>count\<close> slots hold the
  previous live entries in the same FIFO order, with \<open>head\<close> reset to \<open>0\<close> and \<open>tail\<close>
  set to \<open>count\<close>; the counters and the parent are untouched.
\<close>

theorem resize_compacts:
  assumes "well_formed s" "0 < count s"
  shows "\<exists>s'. resize s = Inr s' \<and> int (length (buf s')) = 2 * count s
           \<and> take (nat (count s)) (buf s') = live s
           \<and> head s' = 0 \<and> tail s' = count s \<and> count s' = count s \<and> cur s' = cur s
           \<and> parent s' = parent s \<and> live s' = live s \<and> well_formed s'"
proof -
  have ll: "length (live s) = nat (count s)" using assms(1) by (rule length_live)
  let ?s' = "s\<lparr>head := 0, tail := count s,
            buf := live s @ replicate (nat (count s)) zero_ppbMessage\<rparr>"
  have "resize s = Inr ?s'" using assms by (rule resize_eq)
  moreover have "live ?s' = live s" using ll by (simp add: live_def ring_def)
  moreover have "well_formed ?s'" using ll assms(2) by (simp add: well_formed_def geo_def)
  ultimately show ?thesis using ll assms(2) by simp
qed

theorem resize_compacts_witness:
  "well_formed wrapped_ppb \<and> 0 < count wrapped_ppb
   \<and> map retries (live wrapped_ppb) = [3, 2]
   \<and> (\<exists>s'. resize wrapped_ppb = Inr s' \<and> int (length (buf s')) = 4
           \<and> map retries (take 2 (buf s')) = [3, 2] \<and> head s' = 0 \<and> tail s' = 2)"
proof -
  have w: "well_formed wrapped_ppb" by (simp add: well_formed_def geo_def wrapped_ppb_def)
  have c: "0 < count wrapped_ppb" by (simp add: wrapped_ppb_def)
  have l: "map retries (live wrapped_ppb) = [3, 2]"
    by (simp add: live_def ring_def wrapped_ppb_def rotate_eq_drop_take)
  have n: "nat (count wrapped_ppb) = 2" "count wrapped_ppb = 2" by (simp_all add: wrapped_ppb_def)
  from resize_compacts [OF w c] l n w c show ?thesis by auto
qed

section \<open>add with a failing encoder\<close>

text \<open>
  C6: when the key encoder fails, or the key is encoded and the value encoder fails,
  \<open>add\<close> hands the message and that error to \<open>returnError\<close> and returns; the backing
  array, \<open>head\<close>, \<open>tail\<close>, \<open>count\<close> and the cursor are unchanged, so the message is not
  in the buffer and no later retry can reach it.
\<close>

theorem add_encode_failure:
  assumes "encode_field (Key m) = Inl e
         \<or> (\<exists>k. encode_field (Key m) = Inr k \<and> encode_field (Value m) = Inl e)"
  shows "\<exists>s'. add m s = Inr s'
           \<and> buf s' = buf s \<and> head s' = head s \<and> tail s' = tail s
           \<and> count s' = count s \<and> cur s' = cur s
           \<and> errors (parent s') = errors (parent s) @ [(Some m, e)]
           \<and> successes (parent s') = successes (parent s)
           \<and> conf (parent s') = conf (parent s)"
  using assms by (auto simp: add_def returnError_def)

theorem add_encode_failure_witness:
  "encode_field (Key bad_key_msg) = Inl (GoError ''key'')
   \<and> (\<exists>s'. add bad_key_msg (newPPB fresh_parent) = Inr s'
         \<and> buf s' = buf (newPPB fresh_parent) \<and> count s' = 0
         \<and> errors (parent s') = [(Some bad_key_msg, GoError ''key'')])"
proof -
  have k: "encode_field (Key bad_key_msg) = Inl (GoError ''key'')"
    by (simp add: encode_field_def bad_key_msg_def)
  from add_encode_failure [of bad_key_msg "GoError ''key''" "newPPB fresh_parent"] k
  show ?thesis by (auto simp: newPPB_def fresh_parent_def)
qed

section \<open>The produce request: decode and encode\<close>

text \<open>
  C9: whatever the decoder, when the reads of required-acks and timeout succeed and the
  topic count is read as zero, \<open>decode\<close> returns without error; it stores the two values
  read and does not touch \<open>msgSets\<close>, so that a request decoded from its zero value carries
  no topic.
\<close>

theorem decode_zero_topics:
  assumes "getInt16 D pd = Inr (ra, pd1)" "getInt32 D pd1 = Inr (timeout, pd2)"
    "getArrayLength D pd2 = Inr (0, pd3)"
  shows "\<exists>r'. decode D md r pd version = Inr r'
           \<and> RequiredAcks r' = ra \<and> Timeout r' = timeout \<and> msgSets r' = msgSets r
           \<and> (msgSets r = None \<longrightarrow> topics_of r' = Map.empty)"
  using assms by (simp add: decode_def topics_of_def)

lemma unat_byte: "n < 256 \<Longrightarrow> unat (of_nat n :: 8 word) = n"
  by (simp add: unat_of_nat)

lemma rd16_be16: "rd16 (be16 w @ bs) = w"
proof -
  have "unat w < 65536" using unsigned_less [of w, where ?'a = nat] by simp
  then have "unat w div 256 < 256" by simp
  then show ?thesis by (simp add: be16_def unat_byte)
qed

lemma rd32_be32: "rd32 (be32 w @ bs) = w"
proof -
  let ?n = "unat w"
  have "?n < 4294967296" using unsigned_less [of w, where ?'a = nat] by simp
  then have a: "?n div 16777216 < 256" by simp
  have "?n div 16777216 = ?n div 65536 div 256" by (simp flip: div_mult2_eq)
  then have b: "?n div 16777216 * 256 + ?n div 65536 mod 256 = ?n div 65536"
    using div_mult_mod_eq [of "?n div 65536" 256] by simp
  have "?n div 65536 = ?n div 256 div 256" by (simp flip: div_mult2_eq)
  then have c: "?n div 65536 * 256 + ?n div 256 mod 256 = ?n div 256"
    using div_mult_mod_eq [of "?n div 256" 256] by simp
  have d: "?n div 256 * 256 + ?n mod 256 = ?n" by simp
  show ?thesis using a by (simp add: be32_def unat_byte b c d)
qed

lemma length_be16 [simp]: "length (be16 w) = 2"
  by (simp add: be16_def)

lemma length_be32 [simp]: "length (be32 w) = 4"
  by (simp add: be32_def)

lemma bytes_string_bytes: "bytes_string (string_bytes s) = s"
proof -
  have "char_of (unat (of_nat (of_char c :: nat) :: 8 word)) = c" for c :: char
  proof -
    have "(of_char c :: nat) < 256" by (rule nat_of_char_less_256)
    then show ?thesis by (simp add: unat_byte)
  qed
  then show ?thesis by (simp add: bytes_string_def string_bytes_def comp_def)
qed

lemma sint32_of_nat: "n < 2147483648 \<Longrightarrow> sint (of_nat n :: 32 word) = int n"
  by (simp add: signed_of_nat signed_take_bit_int_eq_self)

lemma sint16_of_nat: "n < 32768 \<Longrightarrow> sint (of_nat n :: 16 word) = int n"
  by (simp add: signed_of_nat signed_take_bit_int_eq_self)

lemma getInt16_wire: "getInt16 wire_decoder (be16 w @ bs) = Inr (w, bs)"
  by (simp add: wire_decoder_def wire_getInt16_def rd16_be16)

lemma getInt32_wire: "getInt32 wire_decoder (be32 w @ bs) = Inr (w, bs)"
  by (simp add: wire_decoder_def wire_getInt32_def rd32_be32)

lemma getArrayLength_wire:
  assumes "n < 2147483648" "n \<le> length bs"
  shows "getArrayLength wire_decoder (be32 (of_nat n) @ bs) = Inr (int n, bs)"
proof -
  have "wire_getInt32 (be32 (of_nat n) @ bs) = Inr (of_nat n, bs)"
    using getInt32_wire [of "of_nat n" bs] by (simp add: wire_decoder_def)
  then show ?thesis using assms
    by (simp add: wire_decoder_def wire_getArrayLength_def sint32_of_nat)
qed

lemma getString_wire:
  assumes "length str \<le> 32767"
  shows "getString wire_decoder (be16 (of_nat (length str)) @ string_bytes str @ bs) = Inr (str, bs)"
proof -
  have "wire_getInt16 (be16 (of_nat (length str)) @ string_bytes str @ bs)
          = Inr (of_nat (length str), string_bytes str @ bs)"
    using getInt16_wire [of "of_nat (length str)" "string_bytes str @ bs"]
    by (simp add: wire_decoder_def)
  moreover have "sint (of_nat (length str) :: 16 word) = int (length str)"
    using assms by (simp add: sint16_of_nat)
  moreover have "length (string_bytes str) = length str" by (simp add: string_bytes_def)
  ultimately show ?thesis
    by (simp add: wire_decoder_def wire_getString_def bytes_string_bytes)
qed

lemma getSubset_wire:
  "getSubset wire_decoder (int (length xs)) (xs @ bs) = Inr (xs, bs)"
  by (simp add: wire_decoder_def wire_getSubset_def)

text \<open>The codec of the message sets: what \<open>encode\<close> appends for a message, a block and a
  set, read back by \<open>decode\<close>.\<close>

lemma length_be64 [simp]: "length (be64 w) = 8"
  by (simp add: be64_def)

lemma unat_word32: "n < 4294967296 \<Longrightarrow> unat (of_nat n :: 32 word) = n"
  by (simp add: unat_of_nat)

lemma rd64_be64: "rd64 (be64 w @ bs) = w"
proof -
  let ?n = "unat w"
  have "?n < 18446744073709551616" using unsigned_less [of w, where ?'a = nat] by simp
  then have hi: "?n div 4294967296 < 4294967296" by simp
  have lo: "?n mod 4294967296 < 4294967296" by simp
  have a: "rd32 (be64 w @ bs) = of_nat (?n div 4294967296)"
    using rd32_be32 [of "of_nat (?n div 4294967296)"] by (simp add: be64_def)
  have b: "rd32 (drop 4 (be64 w @ bs)) = of_nat (?n mod 4294967296)"
    using rd32_be32 [of "of_nat (?n mod 4294967296)" bs] by (simp add: be64_def)
  have "unat (rd32 (be64 w @ bs)) * 4294967296 + unat (rd32 (drop 4 (be64 w @ bs))) = ?n"
    unfolding a b using hi lo by (simp add: unat_word32)
  then show ?thesis by (simp add: rd64_def)
qed

lemma getInt64_wire: "wire_getInt64 (be64 w @ bs) = Inr (w, bs)"
  by (simp add: wire_getInt64_def rd64_be64)

lemma wire_getInt32_be32: "wire_getInt32 (be32 w @ bs) = Inr (w, bs)"
  using getInt32_wire [of w bs] by (simp add: wire_decoder_def)

lemma putBytes_wire:
  assumes "wire_putBytes b s = Inr s'"
  shows "\<exists>out. written s' = written s @ out \<and> reserved s' = reserved s
           \<and> (\<forall>rest. wire_getBytes (out @ rest) = Inr (b, rest))"
proof (cases b)
  case None
  then have "written s' = written s @ be32 (- 1)" "reserved s' = reserved s"
    using assms by (auto simp: wire_putBytes_def wire_putInt32_def)
  moreover have "wire_getBytes (be32 (- 1) @ rest) = Inr (b, rest)" for rest
    using None by (simp add: wire_getBytes_def wire_getInt32_be32)
  ultimately show ?thesis by blast
next
  case (Some bs)
  then have small: "length bs < 2147483648"
    and w: "written s' = written s @ be32 (of_nat (length bs)) @ bs" "reserved s' = reserved s"
    using assms by (auto simp: wire_putBytes_def split: if_splits)
  have "wire_getBytes ((be32 (of_nat (length bs)) @ bs) @ rest) = Inr (b, rest)" for rest
    using Some small by (simp add: wire_getBytes_def wire_getInt32_be32 sint32_of_nat)
  then show ?thesis using w by blast
qed

lemma uncompressed_library_roundtrip:
  assumes "Codec m = CompressionNone"
  shows "library_roundtrip P m"
proof -
  have "attributes_codec (codec_attributes (Codec m)) = CompressionNone"
    using assms by (simp add: attributes_codec_def codec_attributes_def CompressionNone_def)
  moreover have "encode_payload P m = Inr (MsgValue m)"
    using assms by (simp add: encode_payload_def split: option.splits)
  ultimately show ?thesis by (simp add: library_roundtrip_def decode_payload_def)
qed

lemma Message_roundtrip:
  assumes "Message_encode P m s = Inr s'" "library_roundtrip P m"
  shows "\<exists>out m'. written s' = written s @ out \<and> reserved s' = reserved s
           \<and> MsgKey m' = MsgKey m \<and> MsgValue m' = MsgValue m
           \<and> (\<forall>rest. Message_decode P (out @ rest) = Inr (m', rest))"
proof -
  let ?W = "written s" and ?a = "codec_attributes (Codec m)"
  let ?s0 = "wire_putInt8 ?a (wire_putInt8 0 (wire_push crc32Field s))"
  from assms(1) obtain s1 z s2 where s1: "wire_putBytes (MsgKey m) ?s0 = Inr s1"
    and z: "encode_payload P m = Inr z"
    and s2: "wire_putBytes z s1 = Inr s2" and s': "wire_pop s2 = Inr s'"
    by (auto simp: Message_encode_def split: sum.splits)
  from assms(2) z have dz: "decode_payload P (attributes_codec ?a) z = Inr (MsgValue m)"
    by (simp add: library_roundtrip_def)
  have w0: "written ?s0 = ?W @ [0, 0, 0, 0] @ [0, ?a]"
    and r0: "reserved ?s0 = (crc32Field, length ?W) # reserved s"
    by (simp_all add: wire_putInt8_def wire_push_def)
  from putBytes_wire [OF s1] obtain k where k: "written s1 = written ?s0 @ k"
    "reserved s1 = reserved ?s0" "\<forall>rest. wire_getBytes (k @ rest) = Inr (MsgKey m, rest)"
    by blast
  from putBytes_wire [OF s2] obtain v where v: "written s2 = written s1 @ v"
    "reserved s2 = reserved s1" "\<forall>rest. wire_getBytes (v @ rest) = Inr (z, rest)"
    by blast
  let ?body = "[0, ?a] @ k @ v"
  let ?m' = "\<lparr>Codec = attributes_codec ?a, MsgKey = MsgKey m, MsgValue = MsgValue m\<rparr>"
  have w2: "written s2 = ?W @ [0, 0, 0, 0] @ ?body"
    and r2: "reserved s2 = (crc32Field, length ?W) # reserved s"
    using k v w0 r0 by simp_all
  have w': "written s' = ?W @ be32 (crc32 ?body) @ ?body" and r': "reserved s' = reserved s"
    using s' by (auto simp: wire_pop_def w2 r2)
  have "Message_decode P ((be32 (crc32 ?body) @ ?body) @ rest) = Inr (?m', rest)" for rest
  proof -
    have g3: "wire_getBytes (k @ v @ rest) = Inr (MsgKey m, v @ rest)" using k(3) by blast
    have g4: "wire_getBytes (v @ rest) = Inr (z, rest)" using v(3) by blast
    show ?thesis
      using g3 g4 dz by (simp add: Message_decode_def wire_getInt8_def rd32_be32)
  qed
  moreover have "MsgKey ?m' = MsgKey m" "MsgValue ?m' = MsgValue m" by simp_all
  ultimately show ?thesis using w' r' by blast
qed

lemma MessageBlock_roundtrip:
  assumes "MessageBlock_encode P msb s = Inr s'" "library_roundtrip P (Msg msb)"
  shows "\<exists>out msb'. written s' = written s @ out \<and> reserved s' = reserved s \<and> out \<noteq> []
           \<and> MsgKey (Msg msb') = MsgKey (Msg msb) \<and> MsgValue (Msg msb') = MsgValue (Msg msb)
           \<and> (\<forall>rest. MessageBlock_decode P (out @ rest) = Inr (msb', rest))"
proof -
  let ?W = "written s"
  let ?s0 = "wire_push lengthField (wire_putInt64 (Offset msb) s)"
  from assms(1) obtain s1 where s1: "Message_encode P (Msg msb) ?s0 = Inr s1"
    and s': "wire_pop s1 = Inr s'"
    by (auto simp: MessageBlock_encode_def split: sum.splits)
  have w0: "written ?s0 = ?W @ be64 (Offset msb) @ [0, 0, 0, 0]"
    and r0: "reserved ?s0 = (lengthField, length ?W + 8) # reserved s"
    by (simp_all add: wire_putInt64_def wire_push_def)
  from Message_roundtrip [OF s1 assms(2)] obtain mo m' where mo: "written s1 = written ?s0 @ mo"
    "reserved s1 = reserved ?s0" "MsgKey m' = MsgKey (Msg msb)" "MsgValue m' = MsgValue (Msg msb)"
    "\<forall>rest. Message_decode P (mo @ rest) = Inr (m', rest)"
    by blast
  let ?n = "of_nat (length mo) :: 32 word"
  let ?msb' = "\<lparr>Offset = Offset msb, Msg = m'\<rparr>"
  have w1: "written s1 = ?W @ be64 (Offset msb) @ [0, 0, 0, 0] @ mo"
    and r1: "reserved s1 = (lengthField, length ?W + 8) # reserved s"
    using mo w0 r0 by simp_all
  have w': "written s' = ?W @ be64 (Offset msb) @ be32 ?n @ mo" and r': "reserved s' = reserved s"
    using s' by (auto simp: wire_pop_def w1 r1)
  have "MessageBlock_decode P ((be64 (Offset msb) @ be32 ?n @ mo) @ rest) = Inr (?msb', rest)"
    for rest
  proof -
    have g1: "wire_getInt64 (be64 (Offset msb) @ be32 ?n @ mo @ rest)
                = Inr (Offset msb, be32 ?n @ mo @ rest)"
      by (rule getInt64_wire)
    have g2: "Message_decode P (mo @ rest) = Inr (m', rest)" using mo(5) by blast
    have r: "rd32 (be32 ?n @ mo @ rest) = ?n" by (rule rd32_be32)
    have "MessageBlock_decode P (be64 (Offset msb) @ be32 ?n @ mo @ rest) = Inr (?msb', rest)"
      unfolding MessageBlock_decode_def g1 using g2 r by simp
    then show ?thesis by simp
  qed
  moreover have "be64 (Offset msb) @ be32 ?n @ mo \<noteq> []" by (simp add: be64_def be32_def)
  moreover have "MsgKey (Msg ?msb') = MsgKey (Msg msb)" "MsgValue (Msg ?msb') = MsgValue (Msg msb)"
    using mo(3,4) by simp_all
  ultimately show ?thesis using w' r' by blast
qed

lemma blocks_roundtrip:
  assumes "encode_blocks P msbs s = Inr s'" "\<forall>msb \<in> set msbs. library_roundtrip P (Msg msb)"
  shows "\<exists>out msbs'. written s' = written s @ out \<and> reserved s' = reserved s
           \<and> key_values \<lparr>Messages = msbs'\<rparr> = key_values \<lparr>Messages = msbs\<rparr>
           \<and> (\<forall>acc rest. decode_blocks P acc (out @ rest) = decode_blocks P (acc @ msbs') rest)"
  using assms
proof (induction msbs arbitrary: s)
  case Nil
  have "key_values \<lparr>Messages = []\<rparr> = key_values \<lparr>Messages = []\<rparr>
          \<and> (\<forall>acc rest. decode_blocks P acc ([] @ rest) = decode_blocks P (acc @ []) rest)"
    by simp
  then show ?case using Nil by fastforce
next
  case (Cons msb msbs)
  from Cons.prems(1) obtain s1 where s1: "MessageBlock_encode P msb s = Inr s1"
    and rest: "encode_blocks P msbs s1 = Inr s'"
    by (auto split: sum.splits)
  from Cons.prems(2) have c: "library_roundtrip P (Msg msb)"
    and cs: "\<forall>msb \<in> set msbs. library_roundtrip P (Msg msb)" by simp_all
  from MessageBlock_roundtrip [OF s1 c] obtain o1 msb' where o1: "written s1 = written s @ o1"
    "reserved s1 = reserved s" "o1 \<noteq> []"
    "MsgKey (Msg msb') = MsgKey (Msg msb)" "MsgValue (Msg msb') = MsgValue (Msg msb)"
    "\<forall>rest. MessageBlock_decode P (o1 @ rest) = Inr (msb', rest)"
    by blast
  from Cons.IH [OF rest cs] obtain o2 msbs' where o2: "written s' = written s1 @ o2"
    "reserved s' = reserved s1"
    "key_values \<lparr>Messages = msbs'\<rparr> = key_values \<lparr>Messages = msbs\<rparr>"
    "\<forall>acc rest. decode_blocks P acc (o2 @ rest) = decode_blocks P (acc @ msbs') rest"
    by blast
  have d: "decode_blocks P acc ((o1 @ o2) @ rest) = decode_blocks P (acc @ msb' # msbs') rest"
    for acc rest
  proof -
    have "decode_blocks P acc (o1 @ o2 @ rest) = decode_blocks P (acc @ [msb']) (o2 @ rest)"
      using o1(3,6) by (subst decode_blocks.simps) simp
    also have "\<dots> = decode_blocks P ((acc @ [msb']) @ msbs') rest" using o2(4) by blast
    finally show ?thesis by simp
  qed
  have k: "key_values \<lparr>Messages = msb' # msbs'\<rparr> = key_values \<lparr>Messages = msb # msbs\<rparr>"
    using o1(4,5) o2(3) by (simp add: key_values_def)
  have w: "written s' = written s @ (o1 @ o2)" "reserved s' = reserved s"
    using o1(1,2) o2(1,2) by simp_all
  from w k d show ?case by blast
qed

lemma MessageSet_roundtrip:
  assumes "\<forall>msb \<in> set (Messages ms). library_roundtrip P (Msg msb)"
  shows "set_roundtrip (MessageSet_encode P) (MessageSet_decode P) same_messages ms"
  unfolding set_roundtrip_def
proof (intro allI impI)
  fix s s' assume e: "MessageSet_encode P ms s = Inr s'"
  then have "encode_blocks P (Messages ms) s = Inr s'" by (simp add: MessageSet_encode_def)
  from blocks_roundtrip [OF this assms] obtain out msbs'
    where out: "written s' = written s @ out" "reserved s' = reserved s"
      "key_values \<lparr>Messages = msbs'\<rparr> = key_values \<lparr>Messages = Messages ms\<rparr>"
      "\<forall>acc rest. decode_blocks P acc (out @ rest) = decode_blocks P (acc @ msbs') rest"
    by blast
  have "decode_blocks P [] (out @ []) = decode_blocks P ([] @ msbs') []"
    using out(4) by blast
  then have "MessageSet_decode P out = Inr \<lparr>Messages = msbs'\<rparr>"
    by (simp add: MessageSet_decode_def decode_blocks.simps [of _ _ "[]"])
  moreover have "same_messages ms \<lparr>Messages = msbs'\<rparr>"
    using out(3) by (simp add: same_messages_def key_values_def)
  ultimately show "\<exists>bs ms'. written s' = written s @ bs \<and> reserved s' = reserved s
           \<and> MessageSet_decode P bs = Inr ms' \<and> same_messages ms ms'"
    using out(1,2) by blast
qed

text \<open>What the inner loop of \<open>encode\<close> appends, read back by the inner loop of
  \<open>decode\<close>.\<close>

lemma partitions_roundtrip:
  assumes "encode_partitions wire_encoder me ps s = Inr s'"
    "\<forall>(p, ms) \<in> set ps. set_roundtrip me md eqv ms" "distinct (map fst ps)"
    "length (written s') < 2147483648"
  shows "\<exists>out ps'. written s' = written s @ out \<and> reserved s' = reserved s
           \<and> 8 * length ps \<le> length out
           \<and> same_partitions eqv (map_of ps) (map_of ps') \<and> map fst ps' = map fst ps
           \<and> (\<forall>m rest. decode_partitions wire_decoder md (length ps) m (out @ rest)
                         = Inr (m ++ map_of ps', rest))"
  using assms
proof (induction ps arbitrary: s)
  case Nil
  then show ?case by (simp add: same_partitions_def)
next
  case (Cons x ps)
  obtain p ms where x: "x = (p, ms)" by (cases x)
  let ?s2 = "wire_push lengthField (wire_putInt32 p s)"
  from Cons.prems(1) x obtain s3 s4
    where s3: "me ms ?s2 = Inr s3" and s4: "wire_pop s3 = Inr s4"
      and rest: "encode_partitions wire_encoder me ps s4 = Inr s'"
    by (auto simp: wire_encoder_def split: sum.splits)
  from Cons.prems(2) x have "set_roundtrip me md eqv ms" by simp
  with s3 obtain bs ms' where bs: "written s3 = written ?s2 @ bs" "reserved s3 = reserved ?s2"
    and law: "md bs = Inr ms'" "eqv ms ms'"
    unfolding set_roundtrip_def by blast
  let ?W = "written s"
  have w3: "written s3 = ?W @ be32 p @ [0, 0, 0, 0] @ bs"
    and r3: "reserved s3 = (lengthField, length ?W + 4) # reserved s"
    using bs by (simp_all add: wire_push_def wire_putInt32_def)
  have w4: "written s4 = ?W @ be32 p @ be32 (of_nat (length bs)) @ bs"
    and r4: "reserved s4 = reserved s"
    using s4 by (auto simp: wire_pop_def w3 r3)
  from Cons.prems(2,3) have "\<forall>(p, ms) \<in> set ps. set_roundtrip me md eqv ms"
    "distinct (map fst ps)" by simp_all
  from Cons.IH [OF rest this Cons.prems(4)]
  obtain out ps' where out: "written s' = written s4 @ out" "reserved s' = reserved s4"
    "8 * length ps \<le> length out"
    "same_partitions eqv (map_of ps) (map_of ps')" "map fst ps' = map fst ps"
    "\<forall>m rest. decode_partitions wire_decoder md (length ps) m (out @ rest)
                         = Inr (m ++ map_of ps', rest)"
    by blast
  have small: "length bs < 2147483648" using Cons.prems(4) out(1) w4 by simp
  let ?out = "be32 p @ be32 (of_nat (length bs)) @ bs @ out"
  have a: "written s' = ?W @ ?out" using out(1) w4 by simp
  have b: "reserved s' = reserved s" using out(2) r4 by simp
  have c: "8 * length (x # ps) \<le> length ?out" using out(3) by simp
  have e: "same_partitions eqv (map_of (x # ps)) (map_of ((p, ms') # ps'))"
    using out(4) law(2) x by (simp add: same_partitions_def)
  have f: "map fst ((p, ms') # ps') = map fst (x # ps)" using out(5) x by simp
  have d: "decode_partitions wire_decoder md (length (x # ps)) m (?out @ rest)
             = Inr (m ++ map_of ((p, ms') # ps'), rest)" for m rest
  proof -
    have g1: "getInt32 wire_decoder (?out @ rest)
                = Inr (p, be32 (of_nat (length bs)) @ bs @ out @ rest)"
      using getInt32_wire [of p] by simp
    have g2: "getInt32 wire_decoder (be32 (of_nat (length bs)) @ bs @ out @ rest)
                = Inr (of_nat (length bs), bs @ out @ rest)"
      by (rule getInt32_wire)
    have g3: "getSubset wire_decoder (sint (of_nat (length bs) :: 32 word)) (bs @ out @ rest)
                = Inr (bs, out @ rest)"
      using getSubset_wire [of bs "out @ rest"] small by (simp add: sint32_of_nat)
    have "p \<notin> fst ` set ps'" using Cons.prems(3) x out(5) by (metis distinct.simps(2) fst_conv list.simps(9) set_map)
    then have "p \<notin> dom (map_of ps')" by (simp add: dom_map_of_conv_image_fst)
    then have m: "m(p \<mapsto> ms') ++ map_of ps' = m ++ map_of ((p, ms') # ps')"
      by (simp add: map_add_upd_left)
    show ?thesis
      using g1 g2 g3 law(1) out(6) m by simp
  qed
  from a b c d e f show ?case by blast
qed

lemma fst_topic_maps [simp]: "map fst (topic_maps topics) = map fst topics"
  by (simp add: topic_maps_def comp_def case_prod_unfold)

lemma topics_roundtrip:
  assumes "encode_topics wire_encoder me topics s = Inr s'"
    "\<forall>(t, ps) \<in> set topics. distinct (map fst ps)
        \<and> (\<forall>(p, ms) \<in> set ps. set_roundtrip me md eqv ms)"
    "distinct (map fst topics)" "length (written s') < 2147483648"
  shows "\<exists>out tm. written s' = written s @ out \<and> reserved s' = reserved s
           \<and> length topics \<le> length out
           \<and> same_topics eqv (map_of (topic_maps topics)) (map_of tm)
           \<and> map fst tm = map fst topics
           \<and> (\<forall>m rest. decode_topics wire_decoder md (length topics) m (out @ rest)
                         = Inr (m ++ map_of tm, rest))"
  using assms
proof (induction topics arbitrary: s)
  case Nil
  then show ?case by (simp add: topic_maps_def same_topics_def)
next
  case (Cons x topics)
  obtain t ps where x: "x = (t, ps)" by (cases x)
  from Cons.prems(1) x obtain s1 s2 s3
    where s1: "wire_putString t s = Inr s1"
      and s2: "wire_putArrayLength (int (length ps)) s1 = Inr s2"
      and s3: "encode_partitions wire_encoder me ps s2 = Inr s3"
      and rest: "encode_topics wire_encoder me topics s3 = Inr s'"
    by (auto simp: wire_encoder_def split: sum.splits)
  let ?W = "written s"
  from s1 have tl: "length t \<le> 32767"
    and w1: "written s1 = ?W @ be16 (of_nat (length t)) @ string_bytes t"
    and r1: "reserved s1 = reserved s"
    by (auto simp: wire_putString_def split: if_splits)
  from s2 have pl: "length ps < 2147483648"
    and w2: "written s2 = written s1 @ be32 (of_nat (length ps))"
    and r2: "reserved s2 = reserved s1"
    by (auto simp: wire_putArrayLength_def wire_putInt32_def split: if_splits)
  from Cons.prems(2) x have dps: "distinct (map fst ps)"
    and cps: "\<forall>(p, ms) \<in> set ps. set_roundtrip me md eqv ms"
    by auto
  from Cons.prems(2,3) have "\<forall>(t, ps) \<in> set topics. distinct (map fst ps)
        \<and> (\<forall>(p, ms) \<in> set ps. set_roundtrip me md eqv ms)"
    "distinct (map fst topics)" by simp_all
  from Cons.IH [OF rest this Cons.prems(4)]
  obtain out tm where out: "written s' = written s3 @ out" "reserved s' = reserved s3"
    "length topics \<le> length out"
    "same_topics eqv (map_of (topic_maps topics)) (map_of tm)" "map fst tm = map fst topics"
    "\<forall>m rest. decode_topics wire_decoder md (length topics) m (out @ rest)
                         = Inr (m ++ map_of tm, rest)"
    by blast
  have "length (written s3) < 2147483648" using Cons.prems(4) out(1) by simp
  from partitions_roundtrip [OF s3 cps dps this]
  obtain pout ps' where pout: "written s3 = written s2 @ pout" "reserved s3 = reserved s2"
    "8 * length ps \<le> length pout"
    "same_partitions eqv (map_of ps) (map_of ps')"
    "\<forall>m rest. decode_partitions wire_decoder md (length ps) m (pout @ rest)
                         = Inr (m ++ map_of ps', rest)"
    by blast
  let ?out = "be16 (of_nat (length t)) @ string_bytes t @ be32 (of_nat (length ps)) @ pout @ out"
  let ?tm = "(t, map_of ps') # tm"
  have a: "written s' = ?W @ ?out" using out(1) pout(1) w2 w1 by simp
  have b: "reserved s' = reserved s" using out(2) pout(2) r2 r1 by simp
  have c: "length (x # topics) \<le> length ?out" using out(3) by simp
  have e: "same_topics eqv (map_of (topic_maps (x # topics))) (map_of ?tm)"
    using out(4) pout(4) x by (simp add: same_topics_def topic_maps_def)
  have f: "map fst ?tm = map fst (x # topics)" using out(5) x by simp
  have d: "decode_topics wire_decoder md (length (x # topics)) m (?out @ rest)
             = Inr (m ++ map_of ?tm, rest)" for m rest
  proof -
    have g1: "getString wire_decoder (?out @ rest)
                = Inr (t, be32 (of_nat (length ps)) @ pout @ out @ rest)"
      using getString_wire [OF tl, of "be32 (of_nat (length ps)) @ pout @ out @ rest"] by simp
    have "length ps \<le> length (pout @ out @ rest)" using pout(3) by simp
    from getArrayLength_wire [OF pl this]
    have g2: "getArrayLength wire_decoder (be32 (of_nat (length ps)) @ pout @ out @ rest)
                = Inr (int (length ps), pout @ out @ rest)" .
    have g3: "decode_partitions wire_decoder md (nat (int (length ps))) Map.empty
                (pout @ out @ rest) = Inr (map_of ps', out @ rest)"
      using pout(5) by simp
    have "t \<notin> fst ` set tm"
      using Cons.prems(3) x out(5) by (metis distinct.simps(2) fst_conv list.simps(9) set_map)
    then have "t \<notin> dom (map_of tm)" by (simp add: dom_map_of_conv_image_fst)
    then have m: "m(t \<mapsto> map_of ps') ++ map_of tm = m ++ map_of ?tm"
      by (simp add: map_add_upd_left)
    show ?thesis
      using g1 g2 g3 out(6) m by simp
  qed
  from a b c d e f show ?case by blast
qed

text \<open>The round trip of a request, whatever the codec of its message sets, as long as
  that codec round-trips on each set of the request.\<close>

lemma request_roundtrip:
  assumes "iteration_of r topics"
    "\<forall>(t, ps) \<in> set topics. \<forall>(p, ms) \<in> set ps. set_roundtrip me md eqv ms"
    "encode wire_encoder me r topics new_sink = Inr s"
    "length (written s) < 2147483648"
  shows "\<exists>r'. decode wire_decoder md new_request (written s) version = Inr r'
           \<and> RequiredAcks r' = RequiredAcks r \<and> Timeout r' = Timeout r
           \<and> same_topics eqv (topics_of r) (topics_of r')"
proof -
  from assms(1) have "distinct (map fst (topic_maps topics))"
    and mo: "map_of (topic_maps topics) = topics_of r"
    and dp: "\<forall>(t, ps) \<in> set topics. distinct (map fst ps)"
    by (simp_all add: iteration_of_def range_order_def del: fst_topic_maps)
  then have dt: "distinct (map fst topics)" by simp
  let ?s0 = "wire_putInt32 (Timeout r) (wire_putInt16 (RequiredAcks r) new_sink)"
  from assms(3) obtain s1
    where s1: "wire_putArrayLength (int (length topics)) ?s0 = Inr s1"
      and enc: "encode_topics wire_encoder me topics s1 = Inr s"
    by (auto simp: encode_def wire_encoder_def split: sum.splits)
  from s1 have tl: "length topics < 2147483648"
    and w1: "written s1 = be16 (RequiredAcks r) @ be32 (Timeout r) @ be32 (of_nat (length topics))"
    by (auto simp: wire_putArrayLength_def wire_putInt32_def wire_putInt16_def new_sink_def
        split: if_splits)
  have all: "\<forall>(t, ps) \<in> set topics. distinct (map fst ps)
        \<and> (\<forall>(p, ms) \<in> set ps. set_roundtrip me md eqv ms)"
    using dp assms(2) by auto
  from topics_roundtrip [OF enc all dt assms(4)]
  obtain out tm where out: "written s = written s1 @ out" "length topics \<le> length out"
    "same_topics eqv (map_of (topic_maps topics)) (map_of tm)"
    "\<forall>m rest. decode_topics wire_decoder md (length topics) m (out @ rest)
                         = Inr (m ++ map_of tm, rest)"
    by blast
  have w: "written s = be16 (RequiredAcks r) @ be32 (Timeout r) @ be32 (of_nat (length topics)) @ out"
    using out(1) w1 by simp
  have g1: "getInt16 wire_decoder (written s)
              = Inr (RequiredAcks r, be32 (Timeout r) @ be32 (of_nat (length topics)) @ out)"
    unfolding w by (rule getInt16_wire)
  have g2: "getInt32 wire_decoder (be32 (Timeout r) @ be32 (of_nat (length topics)) @ out)
              = Inr (Timeout r, be32 (of_nat (length topics)) @ out)"
    by (rule getInt32_wire)
  have g3: "getArrayLength wire_decoder (be32 (of_nat (length topics)) @ out)
              = Inr (int (length topics), out)"
    using tl out(2) by (rule getArrayLength_wire)
  show ?thesis
  proof (cases "topics = []")
    case True
    then have "topics_of r = Map.empty" using mo by (simp add: topic_maps_def)
    then show ?thesis
      using g1 g2 g3 True by (simp add: decode_def new_request_def topics_of_def same_topics_def)
  next
    case False
    have "decode_topics wire_decoder md (length topics) Map.empty (out @ [])
            = Inr (Map.empty ++ map_of tm, [])"
      using out(4) by blast
    then have "decode_topics wire_decoder md (nat (int (length topics))) Map.empty out
            = Inr (map_of tm, [])"
      by simp
    then show ?thesis
      using g1 g2 g3 False out(3) mo by (simp add: decode_def new_request_def topics_of_def)
  qed
qed

lemma unat_minus_1_16: "unat (- 1 :: 16 word) = 65535"
  by (simp add: unsigned_minus_1_eq_mask mask_eq_exp_minus_1)

lemma unat_minus_1_32: "unat (- 1 :: 32 word) = 4294967295"
  by (simp add: unsigned_minus_1_eq_mask mask_eq_exp_minus_1)

lemma hello_crc:
  "crc32 [0, 0, 255, 255, 255, 255, 0, 0, 0, 5, 104, 101, 108, 108, 111] = 2275900082"
  by (simp add: crc32_def crc32_update_def crc32_shift_def)

lemma hello_set_encoded:
  "MessageSet_encode P hello_set \<lparr>written = w, reserved = st\<rparr>
     = Inr \<lparr>written = w @ [0, 0, 0, 0, 0, 0, 0, 0,  0, 0, 0, 19,  135, 167, 122, 178,
                           0, 0,  255, 255, 255, 255,  0, 0, 0, 5,  104, 101, 108, 108, 111],
            reserved = st\<rparr>"
  by (simp add: MessageSet_encode_def MessageBlock_encode_def Message_encode_def hello_set_def
      hello_message_def encode_payload_def codec_attributes_def CompressionNone_def
      wire_putInt8_def wire_putInt32_def wire_putInt64_def wire_putBytes_def
      wire_push_def wire_pop_def be32_def be64_def unat_minus_1_32 hello_crc)

lemma hello_encoded:
  "encode wire_encoder (MessageSet_encode P) hello_request hello_topics new_sink
     = Inr \<lparr>written = hello_wire, reserved = []\<rparr>"
  by (simp add: encode_def wire_encoder_def hello_request_def hello_topics_def new_sink_def
      wire_putInt16_def wire_putInt32_def wire_putArrayLength_def wire_putString_def
      wire_push_def wire_pop_def hello_set_encoded hello_wire_def WaitForAll_def
      unat_minus_1_16 be32_def be16_def string_bytes_def)

text \<open>A block cut short is left out: five bytes are a set with no message.\<close>

lemma truncated_block_dropped:
  "MessageSet_decode P [104, 101, 108, 108, 111] = Inr \<lparr>Messages = []\<rparr>"
  by (simp add: MessageSet_decode_def decode_blocks.simps MessageBlock_decode_def
      wire_getInt64_def)

theorem decode_zero_topics_witness:
  "getInt16 wire_decoder empty_wire = Inr (WaitForAll, [0, 0, 3, 232, 0, 0, 0, 0])
   \<and> getInt32 wire_decoder [0, 0, 3, 232, 0, 0, 0, 0] = Inr (1000, [0, 0, 0, 0])
   \<and> getArrayLength wire_decoder [0, 0, 0, 0] = Inr (0, [])
   \<and> msgSets (new_request :: bytes ProduceRequest) = None
   \<and> (\<exists>r'. decode wire_decoder raw_set_parse (new_request :: bytes ProduceRequest)
               empty_wire 0 = Inr r'
         \<and> RequiredAcks r' = WaitForAll \<and> Timeout r' = 1000 \<and> topics_of r' = Map.empty)"
proof -
  have g1: "getInt16 wire_decoder empty_wire = Inr (WaitForAll, [0, 0, 3, 232, 0, 0, 0, 0])"
    by (simp add: wire_decoder_def wire_getInt16_def empty_wire_def WaitForAll_def)
  have g2: "getInt32 wire_decoder [0, 0, 3, 232, 0, 0, 0, 0] = Inr (1000, [0, 0, 0, 0])"
    by (simp add: wire_decoder_def wire_getInt32_def)
  have g3: "getArrayLength wire_decoder [0, 0, 0, 0] = Inr (0, [])"
    by (simp add: wire_decoder_def wire_getInt32_def wire_getArrayLength_def)
  have n: "msgSets (new_request :: bytes ProduceRequest) = None"
    by (simp add: new_request_def)
  from decode_zero_topics [OF g1 g2 g3, of raw_set_parse new_request 0] g1 g2 g3 n
  show ?thesis by auto
qed

text \<open>
  C3, on the wire codec after the spec: take any request, any order in which the loops of
  \<open>encode\<close> visit its topics and partitions, and any version. Each message is uncompressed,
  or its codec is one whose library gives back on decode the value it was given on encode.
  If \<open>encode\<close> returns without error and the bytes written fit the 32-bit size of the wire
  format, then \<open>decode\<close> of those bytes succeeds on a new request and yields the same
  required-acks, the same timeout and the same topics and partitions, each with the same
  keys and values of its messages in the same order. The keys and values are carried
  through the codec of the message sets, from \<open>Message.encode\<close> to \<open>Message.decode\<close>,
  checksum and length fields included; of an uncompressed message nothing is asked.
\<close>

theorem encode_decode_roundtrip:
  assumes "iteration_of r topics"
    "\<forall>(t, ps) \<in> set topics. \<forall>(p, ms) \<in> set ps. \<forall>msb \<in> set (Messages ms).
        Codec (Msg msb) = CompressionNone \<or> library_roundtrip P (Msg msb)"
    "encode wire_encoder (MessageSet_encode P) r topics new_sink = Inr s"
    "length (written s) < 2147483648"
  shows "\<exists>r'. decode wire_decoder (MessageSet_decode P) new_request (written s) version = Inr r'
           \<and> RequiredAcks r' = RequiredAcks r \<and> Timeout r' = Timeout r
           \<and> same_topics same_messages (topics_of r) (topics_of r')"
proof -
  have "\<forall>(t, ps) \<in> set topics. \<forall>(p, ms) \<in> set ps.
          set_roundtrip (MessageSet_encode P) (MessageSet_decode P) same_messages ms"
  proof (intro ballI, clarify)
    fix t ps p ms assume "(t, ps) \<in> set topics" "(p, ms) \<in> set ps"
    with assms(2) have "\<forall>msb \<in> set (Messages ms).
        Codec (Msg msb) = CompressionNone \<or> library_roundtrip P (Msg msb)"
      by blast
    then have "\<forall>msb \<in> set (Messages ms). library_roundtrip P (Msg msb)"
      using uncompressed_library_roundtrip by blast
    then show "set_roundtrip (MessageSet_encode P) (MessageSet_decode P) same_messages ms"
      by (rule MessageSet_roundtrip)
  qed
  from request_roundtrip [OF assms(1) this assms(3,4)] show ?thesis .
qed

theorem encode_decode_roundtrip_witness:
  "iteration_of hello_request hello_topics
   \<and> Codec hello_message = CompressionNone
   \<and> encode wire_encoder (MessageSet_encode no_compression) hello_request hello_topics new_sink
       = Inr \<lparr>written = hello_wire, reserved = []\<rparr>
   \<and> length hello_wire = 56
   \<and> (\<exists>r'. decode wire_decoder (MessageSet_decode no_compression) new_request hello_wire 0 = Inr r'
         \<and> RequiredAcks r' = WaitForAll \<and> Timeout r' = 1000
         \<and> (\<exists>partitions ms. topics_of r' ''t'' = Some partitions \<and> partitions 0 = Some ms
               \<and> key_values ms = [(None, Some [104, 101, 108, 108, 111])]))"
proof -
  have i: "iteration_of hello_request hello_topics"
    by (simp add: iteration_of_def range_order_def topics_of_def hello_request_def
        hello_topics_def)
  have u: "Codec hello_message = CompressionNone"
    by (simp add: hello_message_def)
  have a: "\<forall>(t, ps) \<in> set hello_topics. \<forall>(p, ms) \<in> set ps. \<forall>msb \<in> set (Messages ms).
        Codec (Msg msb) = CompressionNone \<or> library_roundtrip no_compression (Msg msb)"
    using u by (simp add: hello_topics_def hello_set_def)
  have e: "encode wire_encoder (MessageSet_encode no_compression) hello_request hello_topics
             new_sink = Inr \<lparr>written = hello_wire, reserved = []\<rparr>"
    by (rule hello_encoded)
  have l: "length hello_wire = 56" by (simp add: hello_wire_def)
  have b: "length (written \<lparr>written = hello_wire, reserved = []\<rparr>) < 2147483648"
    using l by simp
  have f: "RequiredAcks hello_request = WaitForAll" "Timeout hello_request = 1000"
    by (simp_all add: hello_request_def)
  have t: "topics_of hello_request ''t'' = Some (map_of [(0, hello_set)])"
    by (simp add: topics_of_def hello_request_def hello_topics_def topic_maps_def)
  have k: "key_values hello_set = [(None, Some [104, 101, 108, 108, 111])]"
    by (simp add: key_values_def hello_set_def hello_message_def)
  from encode_decode_roundtrip [OF i a e b, of 0]
  obtain r' where r': "decode wire_decoder (MessageSet_decode no_compression) new_request
        hello_wire 0 = Inr r'"
    "RequiredAcks r' = WaitForAll" "Timeout r' = 1000"
    "same_topics same_messages (topics_of hello_request) (topics_of r')"
    using f by auto
  from r'(4) have "rel_option (same_partitions same_messages)
       (topics_of hello_request ''t'') (topics_of r' ''t'')"
    by (simp add: same_topics_def)
  then obtain partitions where p: "topics_of r' ''t'' = Some partitions"
    "same_partitions same_messages (map_of [(0, hello_set)]) partitions"
    unfolding t by (cases "topics_of r' ''t''") simp_all
  from p(2) have "\<forall>q. rel_option same_messages (map_of [(0, hello_set)] q) (partitions q)"
    unfolding same_partitions_def .
  from spec [OF this, of 0] have "rel_option same_messages (Some hello_set) (partitions 0)"
    by simp
  then obtain ms where ms: "partitions 0 = Some ms" "same_messages hello_set ms"
    by (cases "partitions 0") simp_all
  have "key_values ms = [(None, Some [104, 101, 108, 108, 111])]"
    using ms(2) k by (simp add: same_messages_def)
  with r' p(1) ms(1) i u e l show ?thesis by blast
qed

end
